theory Spec2Isabelle
  imports Main "HOL-Library.Word"
begin

unbundle bit_operations_syntax

section \<open>Palette converter (palette.c, arch/neon-palette.h)\<close>

text \<open>
  Bytes are \<open>uint8_t\<close>, an 8-bit word. The three static 256-entry channel arrays and the
  static \<open>initialized\<close> flag of a build are one record. Buffers are lists, an element
  written by index; \<open>size_t\<close> counters are natural numbers (a buffer of \<open>2 ^ 64 / 3\<close>
  pixels does not exist, so \<open>i * 3\<close> never wraps).
\<close>

type_synonym uint8_t = "8 word"

record palette_cache =
  palette_r :: "uint8_t list"
  palette_g :: "uint8_t list"
  palette_b :: "uint8_t list"
  palette_initialized :: bool

text \<open>The static storage before the first call: zero-filled arrays, flag false.\<close>

definition palette_static :: palette_cache where
  "palette_static =
     \<lparr>palette_r = replicate 256 0, palette_g = replicate 256 0,
      palette_b = replicate 256 0, palette_initialized = False\<rparr>"

text \<open>\<open>for (int i = 0; i < 256; i++) { r[i] = palette[i*3+0]; g[i] = ...; b[i] = ...; }\<close>\<close>

function palette_init_loop :: "nat \<Rightarrow> uint8_t list \<Rightarrow> palette_cache \<Rightarrow> palette_cache" where
  "palette_init_loop i palette c =
     (if i < 256 then
        palette_init_loop (i + 1) palette
          (c\<lparr>palette_r := (palette_r c)[i := palette ! (i * 3 + 0)],
             palette_g := (palette_g c)[i := palette ! (i * 3 + 1)],
             palette_b := (palette_b c)[i := palette ! (i * 3 + 2)]\<rparr>)
      else c)"
  by pat_completeness auto
termination
  by (relation "measure (\<lambda>(i, palette, c). 256 - i)") auto

declare palette_init_loop.simps [simp del]

definition palette_init :: "uint8_t list \<Rightarrow> palette_cache \<Rightarrow> palette_cache" where
  "palette_init palette c = (palette_init_loop 0 palette c)\<lparr>palette_initialized := True\<rparr>"

text \<open>The scalar conversion loop of \<open>palette_to_rgb24_scalar\<close> (also the remainder loop of
  the NEON implementation, which has the same body and starts at \<open>simd_pixels\<close>).\<close>

function palette_to_rgb24_scalar_loop ::
  "nat \<Rightarrow> nat \<Rightarrow> palette_cache \<Rightarrow> uint8_t list \<Rightarrow> uint8_t list \<Rightarrow> uint8_t list" where
  "palette_to_rgb24_scalar_loop i npixels c indexed rgb24 =
     (if i < npixels then
        (let idx = indexed ! i in
         palette_to_rgb24_scalar_loop (i + 1) npixels c indexed
           (rgb24[i * 3 + 0 := palette_r c ! unat idx,
                  i * 3 + 1 := palette_g c ! unat idx,
                  i * 3 + 2 := palette_b c ! unat idx]))
      else rgb24)"
  by pat_completeness auto
termination
  by (relation "measure (\<lambda>(i, npixels, c, indexed, rgb24). npixels - i)") auto

declare palette_to_rgb24_scalar_loop.simps [simp del]

definition palette_to_rgb24_scalar ::
  "palette_cache \<Rightarrow> uint8_t list \<Rightarrow> uint8_t list \<Rightarrow> nat \<Rightarrow> uint8_t list" where
  "palette_to_rgb24_scalar c indexed rgb24 npixels =
     palette_to_rgb24_scalar_loop 0 npixels c indexed rgb24"

text \<open>
  The NEON implementation. The inner gather loop fills the three 8-entry stack arrays;
  \<open>vld1_u8\<close> loads 8 consecutive bytes into a vector; \<open>vst3_u8\<close> stores three 8-lane
  vectors interleaved (lane \<open>l\<close> of vector \<open>k\<close> goes to byte \<open>3 * l + k\<close> of the
  destination), which is what the intrinsic of \<open>arm_neon.h\<close> does.
\<close>

function neon_gather_loop ::
  "nat \<Rightarrow> nat \<Rightarrow> palette_cache \<Rightarrow> uint8_t list \<Rightarrow>
   uint8_t list \<times> uint8_t list \<times> uint8_t list \<Rightarrow> uint8_t list \<times> uint8_t list \<times> uint8_t list" where
  "neon_gather_loop j i c indexed vals =
     (if j < 8 then
        (case vals of (r_vals, g_vals, b_vals) \<Rightarrow>
           (let idx = indexed ! (i + j) in
            neon_gather_loop (j + 1) i c indexed
              (r_vals[j := palette_r c ! unat idx],
               g_vals[j := palette_g c ! unat idx],
               b_vals[j := palette_b c ! unat idx])))
      else vals)"
  by pat_completeness auto
termination
  by (relation "measure (\<lambda>(j, i, c, indexed, vals). 8 - j)") auto

declare neon_gather_loop.simps [simp del]

definition vld1_u8 :: "uint8_t list \<Rightarrow> uint8_t list" where
  "vld1_u8 a = take 8 a"

fun vst3_lanes :: "nat \<Rightarrow> uint8_t list \<Rightarrow> nat \<Rightarrow> uint8_t list \<times> uint8_t list \<times> uint8_t list \<Rightarrow> uint8_t list" where
  "vst3_lanes 0 mem p rgb = mem"
| "vst3_lanes (Suc l) mem p rgb =
     (case rgb of (v0, v1, v2) \<Rightarrow>
        (vst3_lanes l mem p rgb)[p + 3 * l + 0 := v0 ! l, p + 3 * l + 1 := v1 ! l,
                                 p + 3 * l + 2 := v2 ! l])"

definition vst3_u8 :: "uint8_t list \<Rightarrow> nat \<Rightarrow> uint8_t list \<times> uint8_t list \<times> uint8_t list \<Rightarrow> uint8_t list" where
  "vst3_u8 mem p rgb = vst3_lanes 8 mem p rgb"

function palette_to_rgb24_neon_loop ::
  "nat \<Rightarrow> nat \<Rightarrow> palette_cache \<Rightarrow> uint8_t list \<Rightarrow>
   uint8_t list \<times> uint8_t list \<times> uint8_t list \<Rightarrow> uint8_t list \<Rightarrow> uint8_t list" where
  "palette_to_rgb24_neon_loop i simd_pixels c indexed vals rgb24 =
     (if i < simd_pixels then
        (case neon_gather_loop 0 i c indexed vals of (r_vals, g_vals, b_vals) \<Rightarrow>
           (let r = vld1_u8 r_vals; g = vld1_u8 g_vals; b = vld1_u8 b_vals in
            palette_to_rgb24_neon_loop (i + 8) simd_pixels c indexed (r_vals, g_vals, b_vals)
              (vst3_u8 rgb24 (i * 3) (r, g, b))))
      else rgb24)"
  by pat_completeness auto
termination
  by (relation "measure (\<lambda>(i, simd_pixels, c, indexed, vals, rgb24). simd_pixels - i)") auto

declare palette_to_rgb24_neon_loop.simps [simp del]

text \<open>The stack arrays \<open>r_vals\<close>, \<open>g_vals\<close>, \<open>b_vals\<close> are declared without an initial
  value; the gather loop writes all 8 entries of each before any is read. They start here
  as zeros.\<close>

definition palette_to_rgb24_neon_impl ::
  "palette_cache \<Rightarrow> uint8_t list \<Rightarrow> uint8_t list \<Rightarrow> nat \<Rightarrow> uint8_t list" where
  "palette_to_rgb24_neon_impl c indexed rgb24 npixels =
     (let simd_pixels = (npixels div 8) * 8;
          vals = (replicate 8 0, replicate 8 0, replicate 8 0);
          rgb24' = palette_to_rgb24_neon_loop 0 simd_pixels c indexed vals rgb24
      in palette_to_rgb24_scalar_loop simd_pixels npixels c indexed rgb24')"

text \<open>
  The public entry point. The preprocessor picks the NEON or the scalar build; the flag
  \<open>neon\<close> is that choice. The cache of the build is initialised on the first call only.
\<close>

definition palette_to_rgb24 ::
  "bool \<Rightarrow> palette_cache \<Rightarrow> uint8_t list \<Rightarrow> uint8_t list \<Rightarrow> uint8_t list \<Rightarrow> nat \<Rightarrow>
   palette_cache \<times> uint8_t list" where
  "palette_to_rgb24 neon c indexed rgb24 palette npixels =
     (let c' = (if \<not> palette_initialized c then palette_init palette c else c) in
      if neon then (c', palette_to_rgb24_neon_impl c' indexed rgb24 npixels)
      else (c', palette_to_rgb24_scalar c' indexed rgb24 npixels))"

text \<open>The byte the per-pixel definition puts at offset \<open>m\<close> of the output: channel \<open>m mod 3\<close>
  of the cache entry selected by pixel \<open>m div 3\<close>.\<close>

definition px :: "palette_cache \<Rightarrow> uint8_t list \<Rightarrow> nat \<Rightarrow> uint8_t" where
  "px c ix m = (if m mod 3 = 0 then palette_r c ! unat (ix ! (m div 3))
         else if m mod 3 = 1 then palette_g c ! unat (ix ! (m div 3))
         else palette_b c ! unat (ix ! (m div 3)))"

text \<open>The cache holds the three channels of \<open>palette\<close>: what \<open>palette_init\<close> establishes.\<close>

definition cache_holds :: "uint8_t list \<Rightarrow> palette_cache \<Rightarrow> bool" where
  "cache_holds palette c \<longleftrightarrow>
     (\<forall>m<256. palette_r c ! m = palette ! (m * 3 + 0) \<and>
             palette_g c ! m = palette ! (m * 3 + 1) \<and>
             palette_b c ! m = palette ! (m * 3 + 2))"

text \<open>A small concrete input: a 768-byte palette whose byte \<open>m\<close> is \<open>m mod 256\<close>, and nine
  pixels (one full batch of eight and a remainder of one).\<close>

definition demo_palette :: "uint8_t list" where
  "demo_palette = map of_nat [0..<768]"

definition demo_indexed :: "uint8_t list" where
  "demo_indexed = [5, 200, 7, 0, 255, 13, 100, 42, 77]"

section \<open>Input parser (input.c)\<close>

text \<open>
  The input thread owns all of this state, so the mutexes and condition variables are left
  out and each function is a state transformer on the record \<open>input\<close>.

  A C \<open>int\<close> is an integer in \<open>-2^31 .. 2^31 - 1\<close>. The two \<open>int\<close> computations that
  input bytes can drive out of that range, the parameter accumulator \<open>parm * 10 + digit\<close>
  and the coordinate difference \<open>cx - last_x\<close>, wrap around as two's complement
  (\<open>c_int\<close>): C leaves signed overflow undefined, and this is what the compiled program
  does. The \<open>long\<close> and \<open>time_t\<close> arithmetic on clock values is as written, without a
  bound (64 bits hold every value a clock gives). A \<open>char\<close> argument is the integer
  it promotes to: \<open>0..127\<close> for an ASCII byte; a byte from \<open>0x80\<close> up is \<open>128..255\<close> where
  \<open>char\<close> is unsigned and \<open>-128..-1\<close> where it is signed.

  Three things come from outside the repository and are parameters:
  \<^item> the key codes of \<open>PureDOOM.h\<close>: the record \<open>doom_keys\<close>, passed as \<open>K\<close>;
  \<^item> \<open>clock_gettime(CLOCK_MONOTONIC)\<close>: the field \<open>clock\<close> gives the value of the
    \<open>n\<close>-th reading, \<open>clock_reads\<close> counts the readings taken so far;
  \<^item> the engine: the calls \<open>doom_key_down\<close>, \<open>doom_key_up\<close> and \<open>doom_mouse_move\<close> are
    recorded, oldest first, in the field \<open>events\<close>.
\<close>

definition MAX_PARMS :: nat where "MAX_PARMS = 32"
definition MAX_PENDING_RELEASES :: nat where "MAX_PENDING_RELEASES = 16"
definition MAX_KEY_CODE :: int where "MAX_KEY_CODE = 256"

text \<open>The value an \<open>int\<close> holds after a computation whose exact result is \<open>x\<close>.\<close>

definition c_int :: "int \<Rightarrow> int" where
  "c_int x = (x + 2147483648) mod 4294967296 - 2147483648"

datatype parser_state_t = STATE_GROUND | STATE_ESC | STATE_SS3 | STATE_CSI

record timespec =
  tv_sec :: int
  tv_nsec :: int

record pending_release_t =
  key :: int
  release_time :: timespec

record mouse_state_t =
  last_x :: int
  last_y :: int
  tracking :: bool
  buttons :: "bool list"

datatype doom_event = Doom_key_down int | Doom_key_up int | Doom_mouse_move int int

record doom_keys =
  DOOM_KEY_ENTER :: int
  DOOM_KEY_CTRL :: int
  DOOM_KEY_SHIFT :: int
  DOOM_KEY_ALT :: int
  DOOM_KEY_UP_ARROW :: int
  DOOM_KEY_DOWN_ARROW :: int
  DOOM_KEY_LEFT_ARROW :: int
  DOOM_KEY_RIGHT_ARROW :: int
  DOOM_KEY_F1 :: int
  DOOM_KEY_F2 :: int
  DOOM_KEY_F3 :: int
  DOOM_KEY_F4 :: int
  DOOM_KEY_F5 :: int
  DOOM_KEY_F6 :: int
  DOOM_KEY_F7 :: int
  DOOM_KEY_F8 :: int
  DOOM_KEY_F9 :: int
  DOOM_KEY_F10 :: int
  DOOM_KEY_F11 :: int
  DOOM_KEY_F12 :: int

text \<open>
  The array \<open>pending_releases[16]\<close> with its count \<open>pending_count\<close> is the list of its
  live entries: appending is \<open>pending_releases[pending_count++] = e\<close>, and the shift loop
  that removes entry \<open>i\<close> is \<open>remove_release\<close>. The bitmap is its four 64-bit words.
\<close>

record input =
  exit_requested :: bool
  state :: parser_state_t
  parms :: "int list"
  parm :: int
  parm_count :: nat
  parm_prefix :: int
  device_attributes :: "int list option"
  da_count :: nat
  has_cell_size :: bool
  cell_size :: "int \<times> int"
  has_cursor_pos :: bool
  cursor_pos :: "int \<times> int"
  pending_releases :: "pending_release_t list"
  held_keys_bitmap :: "64 word list"
  mouse :: mouse_state_t
  malloc_ok :: bool
  clock :: "nat \<Rightarrow> timespec"
  clock_reads :: nat
  events :: "doom_event list"

text \<open>The state \<open>input_create\<close> builds (designated initialiser: every field not named is
  zero), for a given clock and allocator behaviour.\<close>

definition input_create :: "(nat \<Rightarrow> timespec) \<Rightarrow> bool \<Rightarrow> input" where
  "input_create clk mok =
     \<lparr>exit_requested = False, state = STATE_GROUND, parms = replicate MAX_PARMS 0, parm = 0,
      parm_count = 0, parm_prefix = 0, device_attributes = None, da_count = 0,
      has_cell_size = False, cell_size = (0, 0), has_cursor_pos = False, cursor_pos = (0, 0),
      pending_releases = [], held_keys_bitmap = replicate 4 0,
      mouse = \<lparr>last_x = 0, last_y = 0, tracking = False, buttons = replicate 3 False\<rparr>,
      malloc_ok = mok, clock = clk, clock_reads = 0, events = []\<rparr>"

definition clock_gettime :: "input \<Rightarrow> timespec \<times> input" where
  "clock_gettime s = (clock s (clock_reads s), s\<lparr>clock_reads := clock_reads s + 1\<rparr>)"

definition doom_key_down :: "input \<Rightarrow> int \<Rightarrow> input" where
  "doom_key_down s k = s\<lparr>events := events s @ [Doom_key_down k]\<rparr>"

definition doom_key_up :: "input \<Rightarrow> int \<Rightarrow> input" where
  "doom_key_up s k = s\<lparr>events := events s @ [Doom_key_up k]\<rparr>"

definition doom_mouse_move :: "input \<Rightarrow> int \<Rightarrow> int \<Rightarrow> input" where
  "doom_mouse_move s dx dy = s\<lparr>events := events s @ [Doom_mouse_move dx dy]\<rparr>"

text \<open>\<open>for_each_modifier(modifiers, key_down)\<close>\<close>

definition for_each_modifier_key_down :: "doom_keys \<Rightarrow> input \<Rightarrow> int \<Rightarrow> input" where
  "for_each_modifier_key_down K s modifiers =
     (if modifiers \<ge> 2 then
        (let modifier_mask = modifiers - 1;
             s1 = (if modifier_mask AND 1 \<noteq> 0 then doom_key_down s (DOOM_KEY_SHIFT K) else s);
             s2 = (if modifier_mask AND 2 \<noteq> 0 then doom_key_down s1 (DOOM_KEY_ALT K) else s1);
             s3 = (if modifier_mask AND 4 \<noteq> 0 then doom_key_down s2 (DOOM_KEY_CTRL K) else s2)
         in s3)
      else s)"

definition mark_key_held :: "input \<Rightarrow> int \<Rightarrow> input" where
  "mark_key_held s k =
     (if k < 0 \<or> k \<ge> MAX_KEY_CODE then s
      else (let word = nat (k div 64); bit = nat (k mod 64) in
            s\<lparr>held_keys_bitmap :=
                 (held_keys_bitmap s)[word := (held_keys_bitmap s ! word) OR push_bit bit 1]\<rparr>))"

definition mark_key_released :: "input \<Rightarrow> int \<Rightarrow> input" where
  "mark_key_released s k =
     (if k < 0 \<or> k \<ge> MAX_KEY_CODE then s
      else (let word = nat (k div 64); bit = nat (k mod 64) in
            s\<lparr>held_keys_bitmap :=
                 (held_keys_bitmap s)[word := (held_keys_bitmap s ! word) AND NOT (push_bit bit 1)]\<rparr>))"

text \<open>The release time: \<open>now\<close> plus \<open>delay_ms\<close>, the nanoseconds carried into the seconds.\<close>

definition release_after :: "timespec \<Rightarrow> int \<Rightarrow> timespec" where
  "release_after now delay_ms =
     (let nsec = tv_nsec now + delay_ms * 1000000 in
      if nsec \<ge> 1000000000
      then \<lparr>tv_sec = tv_sec now + nsec div 1000000000, tv_nsec = nsec mod 1000000000\<rparr>
      else \<lparr>tv_sec = tv_sec now, tv_nsec = nsec\<rparr>)"

text \<open>The loop of \<open>sched_key_release\<close> that looks for an entry of the key and updates the
  first one it finds; \<open>None\<close> when the loop ends without finding one.\<close>

fun update_release ::
  "pending_release_t list \<Rightarrow> int \<Rightarrow> timespec \<Rightarrow> pending_release_t list option" where
  "update_release [] k t = None"
| "update_release (p # ps) k t =
     (if key p = k then Some (p\<lparr>release_time := t\<rparr> # ps)
      else map_option ((#) p) (update_release ps k t))"

definition sched_key_release :: "input \<Rightarrow> int \<Rightarrow> int \<Rightarrow> input" where
  "sched_key_release s k delay_ms =
     (case clock_gettime s of (now, s1) \<Rightarrow>
        (let release_time = release_after now delay_ms in
         case update_release (pending_releases s1) k release_time of
           Some ps \<Rightarrow> s1\<lparr>pending_releases := ps\<rparr>
         | None \<Rightarrow>
             if length (pending_releases s1) < MAX_PENDING_RELEASES
             then mark_key_held
                    (s1\<lparr>pending_releases :=
                          pending_releases s1 @ [\<lparr>key = k, release_time = release_time\<rparr>]\<rparr>) k
             else s1))"

definition sched_modifier_releases :: "doom_keys \<Rightarrow> input \<Rightarrow> int \<Rightarrow> int \<Rightarrow> input" where
  "sched_modifier_releases K s modifiers delay_ms =
     (if modifiers \<ge> 2 then
        (let modifier_mask = modifiers - 1;
             s1 = (if modifier_mask AND 1 \<noteq> 0
                   then sched_key_release s (DOOM_KEY_SHIFT K) delay_ms else s);
             s2 = (if modifier_mask AND 2 \<noteq> 0
                   then sched_key_release s1 (DOOM_KEY_ALT K) delay_ms else s1);
             s3 = (if modifier_mask AND 4 \<noteq> 0
                   then sched_key_release s2 (DOOM_KEY_CTRL K) delay_ms else s2)
         in s3)
      else s)"

text \<open>Removing entry \<open>i\<close>: the entries after it move down one place, the count drops.\<close>

definition remove_release :: "input \<Rightarrow> nat \<Rightarrow> input" where
  "remove_release s i =
     s\<lparr>pending_releases := take i (pending_releases s) @ drop (Suc i) (pending_releases s)\<rparr>"

text \<open>The test of \<open>process_pending_releases\<close>: the release time has passed.\<close>

definition time_passed :: "timespec \<Rightarrow> timespec \<Rightarrow> bool" where
  "time_passed now rt \<longleftrightarrow>
     tv_sec now > tv_sec rt \<or> (tv_sec now = tv_sec rt \<and> tv_nsec now \<ge> tv_nsec rt)"

text \<open>The loop \<open>for (i = pending_count - 1; i >= 0; i--)\<close>; the first argument is \<open>i + 1\<close>.\<close>

fun release_loop :: "nat \<Rightarrow> timespec \<Rightarrow> input \<Rightarrow> input" where
  "release_loop 0 now s = s"
| "release_loop (Suc i) now s =
     (let pr = pending_releases s ! i in
      if time_passed now (release_time pr)
      then release_loop i now
             (remove_release (mark_key_released (doom_key_up s (key pr)) (key pr)) i)
      else release_loop i now s)"

definition process_pending_releases :: "input \<Rightarrow> input" where
  "process_pending_releases s =
     (case clock_gettime s of (now, s1) \<Rightarrow>
        release_loop (length (pending_releases s1)) now s1)"

definition is_key_held :: "input \<Rightarrow> int \<Rightarrow> bool" where
  "is_key_held s k =
     (if k < 0 \<or> k \<ge> MAX_KEY_CODE then False
      else (let word = nat (k div 64); bit = nat (k mod 64);
                bitmap_word = held_keys_bitmap s ! word
            in bitmap_word AND push_bit bit 1 \<noteq> 0))"

text \<open>The key code \<open>ascii_key\<close> computes for a character.\<close>

definition ascii_doom_key :: "doom_keys \<Rightarrow> int \<Rightarrow> int" where
  "ascii_doom_key K ch =
     (let doom_key = ch;
          doom_key = (if doom_key = 13 then DOOM_KEY_ENTER K else doom_key);
          doom_key = (if doom_key = 10 then DOOM_KEY_ENTER K else doom_key);
          doom_key = (if ch = 32 \<or> ch = 102 \<or> ch = 70 \<or> ch = 105 \<or> ch = 73
                      then DOOM_KEY_CTRL K else doom_key)
      in doom_key)"

definition ascii_key :: "doom_keys \<Rightarrow> input \<Rightarrow> int \<Rightarrow> input" where
  "ascii_key K s ch =
     (let doom_key = ascii_doom_key K ch;
          s1 = (if \<not> is_key_held s doom_key then doom_key_down s doom_key else s)
      in sched_key_release s1 doom_key 50)"

definition ss3_key :: "doom_keys \<Rightarrow> input \<Rightarrow> int \<Rightarrow> input" where
  "ss3_key K s ch =
     (let doom_key = (if ch = 80 then DOOM_KEY_F1 K
                      else if ch = 81 then DOOM_KEY_F2 K
                      else if ch = 82 then DOOM_KEY_F3 K
                      else if ch = 83 then DOOM_KEY_F4 K
                      else 0)
      in if doom_key \<noteq> 0 then
           (let s1 = (if \<not> is_key_held s doom_key then doom_key_down s doom_key else s)
            in sched_key_release s1 doom_key 50)
         else s)"

text \<open>The two nested switches at the head of \<open>csi_key\<close>: \<open>A B C D\<close> are the arrows,
  \<open>~\<close> selects a function key by the first parameter, anything else gives 0.\<close>

definition csi_doom_key :: "doom_keys \<Rightarrow> int \<Rightarrow> int \<Rightarrow> int" where
  "csi_doom_key K ch parm1 =
     (if ch = 65 then DOOM_KEY_UP_ARROW K
      else if ch = 66 then DOOM_KEY_DOWN_ARROW K
      else if ch = 67 then DOOM_KEY_RIGHT_ARROW K
      else if ch = 68 then DOOM_KEY_LEFT_ARROW K
      else if ch = 126 then
        (if parm1 = 15 then DOOM_KEY_F5 K
         else if parm1 = 17 then DOOM_KEY_F6 K
         else if parm1 = 18 then DOOM_KEY_F7 K
         else if parm1 = 19 then DOOM_KEY_F8 K
         else if parm1 = 20 then DOOM_KEY_F9 K
         else if parm1 = 21 then DOOM_KEY_F10 K
         else if parm1 = 23 then DOOM_KEY_F11 K
         else if parm1 = 24 then DOOM_KEY_F12 K
         else 0)
      else 0)"

text \<open>The hold delay \<open>csi_key\<close> picks: 80 ms for the arrows, 50 ms otherwise.\<close>

definition csi_delay_ms :: "doom_keys \<Rightarrow> int \<Rightarrow> int" where
  "csi_delay_ms K doom_key =
     (if doom_key = DOOM_KEY_UP_ARROW K \<or> doom_key = DOOM_KEY_DOWN_ARROW K \<or>
         doom_key = DOOM_KEY_LEFT_ARROW K \<or> doom_key = DOOM_KEY_RIGHT_ARROW K
      then 80 else 50)"

text \<open>C division of \<open>long\<close> values truncates towards zero.\<close>

definition c_div :: "int \<Rightarrow> int \<Rightarrow> int" where
  "c_div a b = (if (a < 0) = (b < 0) then \<bar>a\<bar> div \<bar>b\<bar> else - (\<bar>a\<bar> div \<bar>b\<bar>))"

definition time_to_release_ms :: "timespec \<Rightarrow> timespec \<Rightarrow> int" where
  "time_to_release_ms rt now =
     (tv_sec rt - tv_sec now) * 1000 + c_div (tv_nsec rt - tv_nsec now) 1000000"

text \<open>The search loop of \<open>csi_key\<close> for the held key: at the first entry of the key it
  decides whether this is a new keypress and stops; the result is \<open>is_new_keypress\<close> and
  the state.\<close>

function csi_release_scan :: "nat \<Rightarrow> timespec \<Rightarrow> int \<Rightarrow> input \<Rightarrow> bool \<times> input" where
  "csi_release_scan i now doom_key s =
     (if i < length (pending_releases s) then
        (if key (pending_releases s ! i) = doom_key then
           (if time_to_release_ms (release_time (pending_releases s ! i)) now > 25
            then (True, remove_release (mark_key_released (doom_key_up s doom_key) doom_key) i)
            else (False, s))
         else csi_release_scan (i + 1) now doom_key s)
      else (False, s))"
  by pat_completeness auto
termination
  by (relation "measure (\<lambda>(i, now, doom_key, s). length (pending_releases s) - i)") auto

declare csi_release_scan.simps [simp del]

definition csi_key :: "doom_keys \<Rightarrow> input \<Rightarrow> int \<Rightarrow> int \<Rightarrow> int \<Rightarrow> input" where
  "csi_key K s ch parm1 parm2 =
     (let doom_key = csi_doom_key K ch parm1 in
      if doom_key \<noteq> 0 then
        (let delay_ms = csi_delay_ms K doom_key;
             already_held = is_key_held s doom_key
         in case (if already_held
                  then (case clock_gettime s of (now, s0) \<Rightarrow> csi_release_scan 0 now doom_key s0)
                  else (False, s)) of
              (is_new_keypress, s1) \<Rightarrow>
                (let s2 = (if \<not> already_held \<or> is_new_keypress
                           then doom_key_down (for_each_modifier_key_down K s1 parm2) doom_key
                           else s1);
                     s3 = sched_key_release s2 doom_key delay_ms;
                     s4 = (if \<not> already_held \<or> is_new_keypress
                           then sched_modifier_releases K s3 parm2 delay_ms else s3)
                 in s4))
      else s)"

definition device_attributes_report :: "input \<Rightarrow> input" where
  "device_attributes_report s = s"

definition cell_size_report :: "input \<Rightarrow> int \<Rightarrow> int \<Rightarrow> input" where
  "cell_size_report s height width = s\<lparr>cell_size := (height, width), has_cell_size := True\<rparr>"

definition position_report :: "input \<Rightarrow> int \<Rightarrow> int \<Rightarrow> input" where
  "position_report s row col = s\<lparr>cursor_pos := (row, col), has_cursor_pos := True\<rparr>"

definition MOUSE_SENSITIVITY :: int where "MOUSE_SENSITIVITY = 10"
definition MAX_DELTA_CLAMP :: int where "MAX_DELTA_CLAMP = 100"

text \<open>The clamp \<open>if (d > MAX) d = MAX; else if (d < -MAX) d = -MAX;\<close>\<close>

definition clamp_delta :: "int \<Rightarrow> int" where
  "clamp_delta d =
     (if d > MAX_DELTA_CLAMP then MAX_DELTA_CLAMP
      else if d < - MAX_DELTA_CLAMP then - MAX_DELTA_CLAMP else d)"

definition parse_mouse_sgr :: "doom_keys \<Rightarrow> input \<Rightarrow> int \<Rightarrow> input" where
  "parse_mouse_sgr K s final_char =
     (if parm_count s < 3 then s
      else
        (let cb = parms s ! 0; cx = parms s ! 1; cy = parms s ! 2;
             button = cb AND 3;
             is_motion = (cb AND 32 \<noteq> 0);
             is_wheel = (cb AND 64 \<noteq> 0);
             is_press = (final_char = 77)
         in if is_wheel then s
            else if \<not> tracking (mouse s)
            then s\<lparr>mouse := (mouse s)\<lparr>last_x := cx, last_y := cy, tracking := True\<rparr>\<rparr>
            else
              (let delta_x = clamp_delta (c_int (cx - last_x (mouse s))) * MOUSE_SENSITIVITY;
                   delta_y = clamp_delta (c_int (cy - last_y (mouse s))) * MOUSE_SENSITIVITY;
                   s1 = (if delta_x \<noteq> 0 \<or> delta_y \<noteq> 0
                         then (let s' = doom_mouse_move s delta_x delta_y
                               in s'\<lparr>mouse := (mouse s')\<lparr>last_x := cx, last_y := cy\<rparr>\<rparr>)
                         else s)
               in if \<not> is_motion \<and> button < 3 then
                    (if is_press \<and> \<not> buttons (mouse s1) ! nat button then
                       (let s2 = s1\<lparr>mouse := (mouse s1)
                                      \<lparr>buttons := (buttons (mouse s1))[nat button := True]\<rparr>\<rparr>;
                            doom_key = (if button = 0 then DOOM_KEY_CTRL K
                                        else if button = 2 then 32
                                        else if button = 1 then DOOM_KEY_SHIFT K
                                        else 0)
                        in if doom_key \<noteq> 0
                           then sched_key_release (doom_key_down s2 doom_key) doom_key 50
                           else s2)
                     else if \<not> is_press \<and> buttons (mouse s1) ! nat button then
                       s1\<lparr>mouse := (mouse s1)
                               \<lparr>buttons := (buttons (mouse s1))[nat button := False]\<rparr>\<rparr>
                     else s1)
                  else s1)))"

text \<open>Closing a parameter: \<open>if (parm_count < MAX_PARMS) parms[parm_count++] = parm;\<close>\<close>

definition push_parm :: "input \<Rightarrow> input" where
  "push_parm s =
     (if parm_count s < MAX_PARMS
      then s\<lparr>parms := (parms s)[parm_count s := parm s], parm_count := parm_count s + 1\<rparr>
      else s)"

definition parse_char :: "doom_keys \<Rightarrow> input \<Rightarrow> int \<Rightarrow> input" where
  "parse_char K s ch =
     (if ch = 3 then s\<lparr>exit_requested := True\<rparr>
      else if ch = 27 then
        (let s1 = (if state s = STATE_ESC then ascii_key K s 27 else s)
         in s1\<lparr>state := STATE_ESC\<rparr>)
      else if state s = STATE_GROUND then ascii_key K s ch
      else if state s = STATE_ESC then
        (if ch = 79 then s\<lparr>state := STATE_SS3\<rparr>
         else if ch = 91 then
           s\<lparr>state := STATE_CSI, parm := 0, parm_count := 0, parm_prefix := 0\<rparr>
         else
           (let s1 = (ascii_key K s 27)\<lparr>state := STATE_GROUND\<rparr>
            in if ch \<ge> 32 \<and> ch < 127 then ascii_key K s1 ch else s1))
      else if state s = STATE_SS3 then (ss3_key K s ch)\<lparr>state := STATE_GROUND\<rparr>
      else if state s = STATE_CSI then
        (if ch = 63 \<or> ch = 62 \<or> ch = 60 then s\<lparr>parm_prefix := ch\<rparr>
         else if ch \<ge> 48 \<and> ch \<le> 57 then s\<lparr>parm := c_int (parm s * 10 + (ch - 48))\<rparr>
         else if ch = 59 then (push_parm s)\<lparr>parm := 0\<rparr>
         else
           (let s1 = push_parm s;
                s2 =
                  (if ch = 99 \<and> parm_prefix s1 = 63 then
                     device_attributes_report
                       (if malloc_ok s1
                        then s1\<lparr>device_attributes := Some (take (parm_count s1) (parms s1)),
                                da_count := parm_count s1\<rparr>
                        else s1\<lparr>device_attributes := None\<rparr>)
                   else if ch = 116 then
                     (if parm_count s1 \<ge> 3 \<and> parms s1 ! 0 = 4
                      then cell_size_report s1 (parms s1 ! 1) (parms s1 ! 2) else s1)
                   else if ch = 82 then
                     (if parm_count s1 \<ge> 2
                      then position_report s1 (parms s1 ! 0) (parms s1 ! 1) else s1)
                   else if ch = 77 \<or> ch = 109 then
                     (if parm_prefix s1 = 60 then parse_mouse_sgr K s1 ch else s1)
                   else
                     csi_key K s1 ch (if parm_count s1 > 0 then parms s1 ! 0 else 0)
                                     (if parm_count s1 > 1 then parms s1 ! 1 else 0))
            in s2\<lparr>state := STATE_GROUND\<rparr>))
      else s)"

text \<open>One iteration of the thread loop that reads a byte: the pending releases are processed
  first, then the byte is parsed. \<open>feed\<close> runs it over a sequence of bytes.\<close>

definition input_step :: "doom_keys \<Rightarrow> input \<Rightarrow> int \<Rightarrow> input" where
  "input_step K s ch = parse_char K (process_pending_releases s) ch"

fun feed :: "doom_keys \<Rightarrow> input \<Rightarrow> int list \<Rightarrow> input" where
  "feed K s [] = s"
| "feed K s (ch # chs) = feed K (input_step K s ch) chs"

text \<open>An idle stretch of the thread loop outside \<open>STATE_ESC\<close>: \<open>n\<close> iterations in which the
  read times out, so each only processes the pending releases.\<close>

fun polls :: "nat \<Rightarrow> input \<Rightarrow> input" where
  "polls 0 s = s"
| "polls (Suc n) s = polls n (process_pending_releases s)"

text \<open>An entry is due at \<open>now\<close>; the entries that a state holds for one key.\<close>

definition due :: "timespec \<Rightarrow> pending_release_t \<Rightarrow> bool" where
  "due now p = time_passed now (release_time p)"

definition entries_of :: "input \<Rightarrow> int \<Rightarrow> pending_release_t list" where
  "entries_of s k = filter (\<lambda>p. key p = k) (pending_releases s)"

text \<open>The keys \<open>for_each_modifier\<close> visits for a modifier parameter, in its order.\<close>

definition modifier_keys :: "doom_keys \<Rightarrow> int \<Rightarrow> int list" where
  "modifier_keys K modifiers =
     (if modifiers \<ge> 2 then
        (if (modifiers - 1) AND 1 \<noteq> 0 then [DOOM_KEY_SHIFT K] else []) @
        (if (modifiers - 1) AND 2 \<noteq> 0 then [DOOM_KEY_ALT K] else []) @
        (if (modifiers - 1) AND 4 \<noteq> 0 then [DOOM_KEY_CTRL K] else [])
      else [])"

text \<open>The exact time left until \<open>rt\<close>, in nanoseconds.\<close>

definition ns_until :: "timespec \<Rightarrow> timespec \<Rightarrow> int" where
  "ns_until rt now = (tv_sec rt - tv_sec now) * 1000000000 + (tv_nsec rt - tv_nsec now)"

text \<open>The parser state is intact: every array has its declared size and every count is
  within it (\<open>parms[32]\<close> with \<open>parm_count\<close>, \<open>pending_releases[16]\<close> with
  \<open>pending_count\<close>, the four bitmap words, \<open>buttons[3]\<close>), and the \<open>int\<close> fields that input
  bytes set hold \<open>int\<close> values.\<close>

definition int_range :: "int \<Rightarrow> bool" where
  "int_range x \<longleftrightarrow> - 2147483648 \<le> x \<and> x \<le> 2147483647"

definition input_ok :: "input \<Rightarrow> bool" where
  "input_ok s \<longleftrightarrow>
     length (parms s) = MAX_PARMS \<and> parm_count s \<le> MAX_PARMS \<and>
     length (pending_releases s) \<le> MAX_PENDING_RELEASES \<and>
     length (held_keys_bitmap s) = 4 \<and> length (buttons (mouse s)) = 3 \<and>
     int_range (parm s) \<and> list_all int_range (parms s) \<and>
     int_range (last_x (mouse s)) \<and> int_range (last_y (mouse s))"

text \<open>The engine calls that are \<open>doom_mouse_move\<close>.\<close>

fun is_mouse_move :: "doom_event \<Rightarrow> bool" where
  "is_mouse_move (Doom_mouse_move dx dy) = True"
| "is_mouse_move e = False"

text \<open>Concrete parameters for evaluation: a key table with the codes Doom's headers use
  (all within \<open>1..255\<close>), and clocks that advance by a fixed number of milliseconds per
  reading.\<close>

definition demo_keys :: doom_keys where
  "demo_keys =
     \<lparr>DOOM_KEY_ENTER = 13, DOOM_KEY_CTRL = 157, DOOM_KEY_SHIFT = 182, DOOM_KEY_ALT = 184,
      DOOM_KEY_UP_ARROW = 173, DOOM_KEY_DOWN_ARROW = 175, DOOM_KEY_LEFT_ARROW = 172,
      DOOM_KEY_RIGHT_ARROW = 174, DOOM_KEY_F1 = 187, DOOM_KEY_F2 = 188, DOOM_KEY_F3 = 189,
      DOOM_KEY_F4 = 190, DOOM_KEY_F5 = 191, DOOM_KEY_F6 = 192, DOOM_KEY_F7 = 193,
      DOOM_KEY_F8 = 194, DOOM_KEY_F9 = 195, DOOM_KEY_F10 = 196, DOOM_KEY_F11 = 215,
      DOOM_KEY_F12 = 216\<rparr>"

definition ms_clock :: "int \<Rightarrow> nat \<Rightarrow> timespec" where
  "ms_clock step n = \<lparr>tv_sec = 0, tv_nsec = int n * step * 1000000\<rparr>"

text \<open>A clock given by its first readings in nanoseconds (the last one repeats), and the
  state it leads to when Up-arrow (\<open>ESC [ A\<close>) has been pressed at time 0 and the thread,
  54.5 ms later, has read \<open>ESC [\<close> of a second Up-arrow and polled once more: the key is
  held and its release is due at 80 ms.\<close>

definition ns_clock :: "int list \<Rightarrow> nat \<Rightarrow> timespec" where
  "ns_clock ts n = \<lparr>tv_sec = 0, tv_nsec = (if n < length ts then ts ! n else last ts)\<rparr>"

definition held_arrow_state :: "int \<Rightarrow> input" where
  "held_arrow_state t =
     process_pending_releases
       (feed demo_keys (input_create (ns_clock [0, 0, 0, 0, t, t, t, t, t]) True)
          [27, 91, 65, 27, 91])"

text \<open>Byte sequences for evaluation: seventeen distinct letters, none of them remapped
  (\<open>a b c d e g h j k l m n o p q r s\<close>); an SGR report of a left-button press at column
  10, row 20 (\<open>ESC [ < 0 ; 10 ; 20 M\<close>); a motion report at column 12, row 20
  (\<open>ESC [ < 35 ; 12 ; 20 M\<close>); a wheel report at column 15, row 20
  (\<open>ESC [ < 64 ; 15 ; 20 M\<close>).\<close>

definition seventeen_letters :: "int list" where
  "seventeen_letters =
     [97, 98, 99, 100, 101, 103, 104, 106, 107, 108, 109, 110, 111, 112, 113, 114, 115]"

definition sgr_press_10_20 :: "int list" where
  "sgr_press_10_20 = [27, 91, 60, 48, 59, 49, 48, 59, 50, 48, 77]"

definition sgr_motion_12_20 :: "int list" where
  "sgr_motion_12_20 = [27, 91, 60, 51, 53, 59, 49, 50, 59, 50, 48, 77]"

definition sgr_wheel_15_20 :: "int list" where
  "sgr_wheel_15_20 = [27, 91, 60, 54, 52, 59, 49, 53, 59, 50, 48, 77]"

text \<open>The seventeen letters arriving at time 0 (two clock readings per byte, all 0); the
  next reading of the clock is 60 ms, past every release time.\<close>

definition full_list_state :: input where
  "full_list_state =
     feed demo_keys (input_create (ns_clock (replicate 34 0 @ [60000000])) True) seventeen_letters"

text \<open>The parser just before the terminator of an SGR report \<open>ESC [ < cb ; cx ; cy\<close> has
  been handled by \<open>parse_mouse_sgr\<close>: three parameters stored, prefix \<open><\<close>, with a given
  mouse state.\<close>

definition sgr_state :: "int \<Rightarrow> int \<Rightarrow> int \<Rightarrow> mouse_state_t \<Rightarrow> input" where
  "sgr_state cb cx cy m =
     (input_create (ms_clock 1) True)
       \<lparr>state := STATE_CSI, parms := [cb, cx, cy] @ replicate 29 0, parm_count := 3,
        parm_prefix := 60, mouse := m\<rparr>"

definition mouse_fresh :: mouse_state_t where
  "mouse_fresh = \<lparr>last_x = 0, last_y = 0, tracking = False, buttons = [False, False, False]\<rparr>"

definition mouse_at_10_20 :: mouse_state_t where
  "mouse_at_10_20 = \<lparr>last_x = 10, last_y = 20, tracking = True, buttons = [False, False, False]\<rparr>"

definition mouse_at_500_400 :: mouse_state_t where
  "mouse_at_500_400 = \<lparr>last_x = 500, last_y = 400, tracking = True, buttons = [False, False, False]\<rparr>"

section \<open>Protocol encoder (render.c)\<close>

text \<open>
  The renderer owns two buffers; their contents are part of its state: \<open>encoded_buffer\<close>
  (the flexible array member) and \<open>protocol_buffer\<close> (the heap block the pointer field
  refers to). A buffer is the list of its bytes. Writing outside a buffer is undefined in
  C; here \<open>memcpy\<close> and \<open>snprintf\<close> are partial and a write that does not fit makes the
  whole call end in \<open>Mem_fault\<close>, so that memory safety is a theorem and not an assumption.

  \<open>size_t\<close> values are natural numbers below \<open>2 ^ 64\<close> and the one subtraction of the
  function wraps as in C. \<open>frame_number\<close> is a C \<open>int\<close>: the increment \<open>frame_number++\<close>
  wraps around (\<open>c_int\<close>) from \<open>2^31 - 1\<close> to \<open>-2^31\<close>, which happens after \<open>2^31 - 1\<close>
  transmitted frames.

  \<open>base64_encode_auto\<close> (\<open>base64.h\<close>) is not among the sources. The frame enters the model
  as \<open>enc\<close>, the bytes the encoder stores at the start of \<open>encoded_buffer\<close>; its return
  value \<open>encoded_size\<close> is their number. The output stream accepts every write in full.
\<close>

definition WIDTH :: int where "WIDTH = 320"
definition HEIGHT :: int where "HEIGHT = 200"

record renderer =
  screen_rows :: int
  screen_cols :: int
  kitty_id :: int
  frame_number :: int
  encoded_buffer_size :: nat
  protocol_buffer :: "char list"
  protocol_buffer_size :: nat
  encoded_buffer :: "char list"

text \<open>\<open>renderer_create\<close>: \<open>rnd\<close> is the value of \<open>rand()\<close>, \<open>pmem\<close> and \<open>emem\<close> are the
  contents of the two freshly allocated blocks.\<close>

definition renderer_create :: "int \<Rightarrow> int \<Rightarrow> int \<Rightarrow> char list \<Rightarrow> char list \<Rightarrow> renderer" where
  "renderer_create rows cols rnd pmem emem =
     \<lparr>screen_rows = rows, screen_cols = cols, kitty_id = rnd, frame_number = 0,
      encoded_buffer_size = 4 * ((nat (WIDTH * HEIGHT * 3) + 2) div 3) + 1,
      protocol_buffer = pmem, protocol_buffer_size = 280 * 1024, encoded_buffer = emem\<rparr>"

text \<open>The errors the function reports on \<open>stderr\<close> before it returns early, and how a call
  ends.\<close>

datatype render_error =
  Snprintf_failed | Header_overflow | Payload_overflow | Trailer_overflow
  | Animation_snprintf_failed | Animation_overflow | Newline_overflow

datatype outcome = Written | Skipped render_error | Mem_fault

subsection \<open>Formatting and memory\<close>

text \<open>\<open>%d\<close> and \<open>%ld\<close>: decimal digits, a minus sign for a negative value.\<close>

function dec_digits :: "nat \<Rightarrow> string" where
  "dec_digits n =
     (if n < 10 then [char_of (48 + n)] else dec_digits (n div 10) @ [char_of (48 + n mod 10)])"
  by pat_completeness auto
termination
  by (relation "measure (\<lambda>n. n)") auto

declare dec_digits.simps [simp del]

definition fmt_d :: "int \<Rightarrow> string" where
  "fmt_d i = (if i < 0 then CHR ''-'' # dec_digits (nat (- i)) else dec_digits (nat i))"

definition ESC :: char where "ESC = CHR 0x1B"

text \<open>\<open>memcpy(mem + off, bytes, length bytes)\<close>\<close>

definition memcpy :: "char list \<Rightarrow> nat \<Rightarrow> char list \<Rightarrow> char list option" where
  "memcpy mem off bytes =
     (if off + length bytes \<le> length mem
      then Some (take off mem @ bytes @ drop (off + length bytes) mem)
      else None)"

text \<open>\<open>snprintf(mem + off, n, ...)\<close> for the formatted text \<open>str\<close>: with \<open>n > 0\<close> it
  stores at most \<open>n - 1\<close> characters and a terminating NUL; it returns the length of the
  whole text.\<close>

definition snprintf :: "char list \<Rightarrow> nat \<Rightarrow> nat \<Rightarrow> string \<Rightarrow> (char list \<times> int) option" where
  "snprintf mem off n str =
     (if n = 0 then Some (mem, int (length str))
      else map_option (\<lambda>m. (m, int (length str)))
             (memcpy mem off (take (n - 1) str @ [CHR 0x00])))"

text \<open>\<open>a - b\<close> in \<open>size_t\<close>.\<close>

definition size_sub :: "nat \<Rightarrow> nat \<Rightarrow> nat" where
  "size_sub a b = (if b \<le> a then a - b else a + 2 ^ 64 - b)"

subsection \<open>The command texts\<close>

definition chunk_size :: nat where "chunk_size = 4096"

definition m_flag :: "bool \<Rightarrow> int" where
  "m_flag more_chunks = (if more_chunks then 1 else 0)"

text \<open>The four \<open>snprintf\<close> formats of the chunk header: first chunk of frame 0 (create the
  image), first chunk of a later frame (frame action), continuation chunk of frame 0,
  continuation chunk of a later frame.\<close>

definition create_header :: "renderer \<Rightarrow> bool \<Rightarrow> string" where
  "create_header r more_chunks =
     ESC # ''_Ga=T,i='' @ fmt_d (kitty_id r) @ '',f=24,s='' @ fmt_d WIDTH @ '',v='' @ fmt_d HEIGHT @
     '',q=2,c='' @ fmt_d (screen_cols r) @ '',r='' @ fmt_d (screen_rows r) @
     '',m='' @ fmt_d (m_flag more_chunks) @ '';''"

definition update_header :: "renderer \<Rightarrow> bool \<Rightarrow> string" where
  "update_header r more_chunks =
     ESC # ''_Ga=f,r=1,i='' @ fmt_d (kitty_id r) @ '',f=24,x=0,y=0,s='' @ fmt_d WIDTH @
     '',v='' @ fmt_d HEIGHT @ '',m='' @ fmt_d (m_flag more_chunks) @ '';''"

definition create_continuation :: "bool \<Rightarrow> string" where
  "create_continuation more_chunks = ESC # ''_Gm='' @ fmt_d (m_flag more_chunks) @ '';''"

definition update_continuation :: "bool \<Rightarrow> string" where
  "update_continuation more_chunks = ESC # ''_Ga=f,r=1,m='' @ fmt_d (m_flag more_chunks) @ '';''"

definition chunk_header :: "renderer \<Rightarrow> bool \<Rightarrow> bool \<Rightarrow> string" where
  "chunk_header r first more_chunks =
     (if first then
        (if frame_number r = 0 then create_header r more_chunks else update_header r more_chunks)
      else
        (if frame_number r = 0 then create_continuation more_chunks
         else update_continuation more_chunks))"

definition trailer :: string where "trailer = [ESC, CHR 0x5C]"

definition animate_command :: "renderer \<Rightarrow> string" where
  "animate_command r = ESC # ''_Ga=a,c=1,i='' @ fmt_d (kitty_id r) @ '';'' @ [ESC, CHR 0x5C]"

definition newline :: string where "newline = [CHR 0x0D, CHR 0x0A]"

definition cursor_home :: string where "cursor_home = ESC # ''[H''"

subsection \<open>\<open>renderer_render_frame\<close>\<close>

text \<open>The chunk loop \<open>for (encoded_offset = 0; encoded_offset < encoded_size;)\<close>, with the
  protocol buffer \<open>buf\<close> and \<open>buf_offset\<close> as its state. It ends with the buffer filled up to
  \<open>buf_offset\<close>, or with the error of an early \<open>return\<close> (and the buffer as it is then), or
  with a write out of bounds.\<close>

datatype chunk_result = Continue "char list" nat | Abort render_error "char list" | Out_of_bounds

function chunk_loop :: "renderer \<Rightarrow> nat \<Rightarrow> nat \<Rightarrow> char list \<Rightarrow> nat \<Rightarrow> chunk_result" where
  "chunk_loop r encoded_size encoded_offset buf buf_offset =
     (if encoded_offset < encoded_size then
        (let more_chunks = (encoded_offset + chunk_size < encoded_size);
             this_size = (if more_chunks then chunk_size else encoded_size - encoded_offset);
             rem = size_sub (protocol_buffer_size r) buf_offset
         in case snprintf buf buf_offset rem (chunk_header r (encoded_offset = 0) more_chunks) of
              None \<Rightarrow> Out_of_bounds
            | Some (buf1, header_len) \<Rightarrow>
                if header_len < 0 then Abort Snprintf_failed buf1
                else if nat header_len \<ge> rem then Abort Header_overflow buf1
                else
                  (let off1 = buf_offset + nat header_len in
                   if off1 + this_size > protocol_buffer_size r then Abort Payload_overflow buf1
                   else
                     (case memcpy buf1 off1 (take this_size (drop encoded_offset (encoded_buffer r))) of
                        None \<Rightarrow> Out_of_bounds
                      | Some buf2 \<Rightarrow>
                          (let off2 = off1 + this_size in
                           if off2 + 2 > protocol_buffer_size r then Abort Trailer_overflow buf2
                           else
                             (case memcpy buf2 off2 trailer of
                                None \<Rightarrow> Out_of_bounds
                              | Some buf3 \<Rightarrow>
                                  chunk_loop r encoded_size (encoded_offset + this_size)
                                    buf3 (off2 + 2))))))
      else Continue buf buf_offset)"
  by pat_completeness auto
termination
  by (relation "measure (\<lambda>(r, encoded_size, encoded_offset, buf, buf_offset).
        encoded_size - encoded_offset)")
     (auto simp: chunk_size_def)

declare chunk_loop.simps [simp del]

text \<open>After the loop: the animate command for a frame after the first.\<close>

definition animate_step :: "renderer \<Rightarrow> char list \<Rightarrow> nat \<Rightarrow> chunk_result" where
  "animate_step r buf buf_offset =
     (if frame_number r > 0 then
        (let rem = size_sub (protocol_buffer_size r) buf_offset in
         case snprintf buf buf_offset rem (animate_command r) of
           None \<Rightarrow> Out_of_bounds
         | Some (buf1, anim_len) \<Rightarrow>
             if anim_len < 0 then Abort Animation_snprintf_failed buf1
             else if nat anim_len \<ge> rem then Abort Animation_overflow buf1
             else Continue buf1 (buf_offset + nat anim_len))
      else Continue buf buf_offset)"

text \<open>The newline for the first frame.\<close>

definition newline_step :: "renderer \<Rightarrow> char list \<Rightarrow> nat \<Rightarrow> chunk_result" where
  "newline_step r buf buf_offset =
     (if frame_number r = 0 then
        (if buf_offset + 2 > protocol_buffer_size r then Abort Newline_overflow buf
         else (case memcpy buf buf_offset newline of
                 None \<Rightarrow> Out_of_bounds
               | Some buf1 \<Rightarrow> Continue buf1 (buf_offset + 2)))
      else Continue buf buf_offset)"

text \<open>The encoder's effect on the renderer: \<open>enc\<close> at the start of \<open>encoded_buffer\<close>, then
  the NUL of \<open>r->encoded_buffer[encoded_size] = 0\<close>.\<close>

definition store_encoded :: "renderer \<Rightarrow> char list \<Rightarrow> renderer option" where
  "store_encoded r enc =
     map_option (\<lambda>m. r\<lparr>encoded_buffer := m\<rparr>) (memcpy (encoded_buffer r) 0 (enc @ [CHR 0x00]))"

text \<open>What a call writes at once, before it encodes: on frame 0 the cursor-home
  sequence (a \<open>printf\<close> followed by \<open>fflush\<close>), on a later frame nothing.\<close>

definition preamble :: "renderer \<Rightarrow> char list" where
  "preamble r = (if frame_number r = 0 then cursor_home else [])"

text \<open>The whole call. The result is the renderer afterwards, the bytes the call wrote to
  the output stream, and how it ended.\<close>

definition renderer_render_frame :: "renderer \<Rightarrow> char list \<Rightarrow> renderer \<times> char list \<times> outcome" where
  "renderer_render_frame r enc =
     (let out0 = preamble r in
      case store_encoded r enc of
        None \<Rightarrow> (r, out0, Mem_fault)
      | Some r1 \<Rightarrow>
          (case chunk_loop r1 (length enc) 0 (protocol_buffer r1) 0 of
             Out_of_bounds \<Rightarrow> (r1, out0, Mem_fault)
           | Abort e buf \<Rightarrow> (r1\<lparr>protocol_buffer := buf\<rparr>, out0, Skipped e)
           | Continue buf buf_offset \<Rightarrow>
               (case animate_step r1 buf buf_offset of
                  Out_of_bounds \<Rightarrow> (r1, out0, Mem_fault)
                | Abort e buf1 \<Rightarrow> (r1\<lparr>protocol_buffer := buf1\<rparr>, out0, Skipped e)
                | Continue buf1 off1 \<Rightarrow>
                    (case newline_step r1 buf1 off1 of
                       Out_of_bounds \<Rightarrow> (r1, out0, Mem_fault)
                     | Abort e buf2 \<Rightarrow> (r1\<lparr>protocol_buffer := buf2\<rparr>, out0, Skipped e)
                     | Continue buf2 off2 \<Rightarrow>
                         (r1\<lparr>protocol_buffer := buf2, frame_number := c_int (frame_number r1 + 1)\<rparr>,
                          out0 @ take off2 buf2, Written)))))"

text \<open>A renderer is well formed when its two size fields are the sizes of its buffers.\<close>

definition renderer_ok :: "renderer \<Rightarrow> bool" where
  "renderer_ok r \<longleftrightarrow>
     length (protocol_buffer r) = protocol_buffer_size r \<and>
     length (encoded_buffer r) = encoded_buffer_size r \<and>
     protocol_buffer_size r < 2 ^ 64"

subsection \<open>The chunking as the specification words it\<close>

text \<open>The payload cut into consecutive pieces of \<open>n\<close> bytes, the last one possibly
  shorter; each piece wrapped in its header and the terminator, the continuation flag set
  on every piece but the last.\<close>

function split_chunks :: "nat \<Rightarrow> 'a list \<Rightarrow> 'a list list" where
  "split_chunks n xs =
     (if n = 0 \<or> xs = [] then [] else take n xs # split_chunks n (drop n xs))"
  by pat_completeness auto
termination
  by (relation "measure (\<lambda>(n, xs). length xs)") auto

declare split_chunks.simps [simp del]

fun wrap_chunks :: "renderer \<Rightarrow> bool \<Rightarrow> char list list \<Rightarrow> char list" where
  "wrap_chunks r first [] = []"
| "wrap_chunks r first (c # cs) =
     chunk_header r first (cs \<noteq> []) @ c @ trailer @ wrap_chunks r False cs"

text \<open>A sequence of calls, one payload each: the renderer at the end and, per call, the
  bytes written and the outcome.\<close>

fun render_frames :: "renderer \<Rightarrow> char list list \<Rightarrow> renderer \<times> (char list \<times> outcome) list" where
  "render_frames r [] = (r, [])"
| "render_frames r (enc # encs) =
     (case renderer_render_frame r enc of
        (r', out, oc) \<Rightarrow>
          (case render_frames r' encs of (r'', rest) \<Rightarrow> (r'', (out, oc) # rest)))"

text \<open>Small renderers for evaluation: image id 7, a 24 by 80 screen, a protocol buffer of
  \<open>cap\<close> bytes and an encoded buffer of 16 bytes, both filled with \<open>x\<close>, at a given frame
  number.\<close>

definition demo_renderer :: "nat \<Rightarrow> int \<Rightarrow> renderer" where
  "demo_renderer cap n =
     \<lparr>screen_rows = 24, screen_cols = 80, kitty_id = 7, frame_number = n,
      encoded_buffer_size = 16, protocol_buffer = replicate cap (CHR ''x''),
      protocol_buffer_size = cap, encoded_buffer = replicate 16 (CHR ''x'')\<rparr>"

text \<open>The protocol bytes of one frame: the wrapped chunks, then the animate command for a
  frame after the first, or the newline for the first.\<close>

definition frame_bytes :: "renderer \<Rightarrow> char list \<Rightarrow> char list" where
  "frame_bytes r enc =
     wrap_chunks r True (split_chunks chunk_size enc) @
     (if frame_number r > 0 then animate_command r else []) @
     (if frame_number r = 0 then newline else [])"


text \<open>\<open>ends_with s xs\<close>: the list \<open>xs\<close> ends with \<open>s\<close>. Over a sequence of calls, the number
  of transmitted frames and the number of outputs that end with the newline.\<close>

definition ends_with :: "'a list \<Rightarrow> 'a list \<Rightarrow> bool" where
  "ends_with s xs \<longleftrightarrow> length s \<le> length xs \<and> drop (length xs - length s) xs = s"

definition written_count :: "(char list \<times> outcome) list \<Rightarrow> nat" where
  "written_count outs = length (filter (\<lambda>(out, oc). oc = Written) outs)"

definition newline_count :: "(char list \<times> outcome) list \<Rightarrow> nat" where
  "newline_count outs = length (filter (\<lambda>(out, oc). ends_with newline out) outs)"

text \<open>The number that a string of decimal digits denotes.\<close>

definition digits_value :: "string \<Rightarrow> nat" where
  "digits_value ds = foldl (\<lambda>a c. 10 * a + (of_char c - 48)) 0 ds"

text \<open>The renderer as \<open>renderer_create\<close> makes it for a 24 by 80 terminal, with image id 7,
  and a payload of the size base64 gives a 320 by 200 RGB frame: 256000 bytes, 62 chunks
  of 4096 and one of 2048.\<close>

definition doom_renderer :: renderer where
  "doom_renderer =
     renderer_create 24 80 7 (replicate (280 * 1024) (CHR ''x'')) (replicate 256001 (CHR ''x''))"

definition doom_payload :: "char list" where
  "doom_payload = replicate 256000 (CHR ''A'')"
section \<open>Palette converter: correctness\<close>

lemma px_simps:
  "px c ix (i * 3) = palette_r c ! unat (ix ! i)"
  "px c ix (Suc (i * 3)) = palette_g c ! unat (ix ! i)"
  "px c ix (Suc (Suc (i * 3))) = palette_b c ! unat (ix ! i)"
  by (simp_all add: px_def mod_Suc div_Suc)

lemma palette_init_loop_length:
  "length (palette_r (palette_init_loop i p c)) = length (palette_r c) \<and>
   length (palette_g (palette_init_loop i p c)) = length (palette_g c) \<and>
   length (palette_b (palette_init_loop i p c)) = length (palette_b c)"
proof (induction i p c rule: palette_init_loop.induct)
  case (1 i p c)
  show ?case
  proof (cases "i < 256")
    case True
    then show ?thesis using 1 by (subst (1 2 3) palette_init_loop.simps) simp
  next
    case False
    then show ?thesis by (subst (1 2 3) palette_init_loop.simps) simp
  qed
qed

lemma palette_init_loop_nth:
  assumes "length (palette_r c) = 256" "length (palette_g c) = 256" "length (palette_b c) = 256" "m < 256"
  shows "palette_r (palette_init_loop i p c) ! m = (if i \<le> m then p ! (m * 3) else palette_r c ! m) \<and>
   palette_g (palette_init_loop i p c) ! m = (if i \<le> m then p ! (m * 3 + 1) else palette_g c ! m) \<and>
   palette_b (palette_init_loop i p c) ! m = (if i \<le> m then p ! (m * 3 + 2) else palette_b c ! m)"
  using assms
proof (induction i p c rule: palette_init_loop.induct)
  case (1 i p c)
  show ?case
  proof (cases "i < 256")
    case True
    have "i = m \<or> i < m \<or> m < i" by arith
    then show ?thesis using 1 True by (subst (1 2 3) palette_init_loop.simps) (auto simp: nth_list_update)
  next
    case False
    then show ?thesis using 1 by (subst (1 2 3) palette_init_loop.simps) simp
  qed
qed

lemma scalar_loop_length:
  "length (palette_to_rgb24_scalar_loop i n c ix out) = length out"
proof (induction i n c ix out rule: palette_to_rgb24_scalar_loop.induct)
  case (1 i n c ix out)
  show ?case
    using 1 by (subst palette_to_rgb24_scalar_loop.simps) (simp add: Let_def)
qed

lemma scalar_loop_nth:
  assumes "3 * n \<le> length out" 
  shows "palette_to_rgb24_scalar_loop i n c ix out ! m =
     (if 3 * i \<le> m \<and> m < 3 * n then px c ix m else out ! m)"
  using assms
proof (induction i n c ix out rule: palette_to_rgb24_scalar_loop.induct)
  case (1 i n c ix out)
  show ?case
  proof (cases "i < n")
    case True
    define out1 where "out1 = out[i * 3 + 0 := palette_r c ! unat (ix ! i),
                  i * 3 + 1 := palette_g c ! unat (ix ! i),
                  i * 3 + 2 := palette_b c ! unat (ix ! i)]"
    have unf: "palette_to_rgb24_scalar_loop i n c ix out = palette_to_rgb24_scalar_loop (i + 1) n c ix out1"
      using True by (subst palette_to_rgb24_scalar_loop.simps) (simp add: Let_def out1_def)
    have len: "3 * n \<le> length out1" using 1(2) by (simp add: out1_def)
    have ih: "palette_to_rgb24_scalar_loop (i + 1) n c ix out1 ! m =
       (if 3 * (i + 1) \<le> m \<and> m < 3 * n then px c ix m else out1 ! m)"
      using 1(1)[OF True refl, of ] len by (simp add: out1_def)
    have o1: "out1 ! m = (if m = i * 3 \<or> m = i * 3 + 1 \<or> m = i * 3 + 2 then px c ix m else out ! m)"
      using True 1(2) by (auto simp: out1_def nth_list_update px_simps)
    show ?thesis unfolding unf ih o1 using True by auto
  next
    case False
    then show ?thesis by (subst palette_to_rgb24_scalar_loop.simps) auto
  qed
qed


lemma gather_loop_props:
  assumes "length (fst vals) = 8" "length (fst (snd vals)) = 8" "length (snd (snd vals)) = 8"
  shows "length (fst (neon_gather_loop j i c ix vals)) = 8 \<and>
      length (fst (snd (neon_gather_loop j i c ix vals))) = 8 \<and>
      length (snd (snd (neon_gather_loop j i c ix vals))) = 8 \<and>
      (\<forall>l<8. fst (neon_gather_loop j i c ix vals) ! l =
                (if j \<le> l then palette_r c ! unat (ix ! (i + l)) else fst vals ! l) \<and>
              fst (snd (neon_gather_loop j i c ix vals)) ! l =
                (if j \<le> l then palette_g c ! unat (ix ! (i + l)) else fst (snd vals) ! l) \<and>
              snd (snd (neon_gather_loop j i c ix vals)) ! l =
                (if j \<le> l then palette_b c ! unat (ix ! (i + l)) else snd (snd vals) ! l))"
  using assms
proof (induction j i c ix vals rule: neon_gather_loop.induct)
  case (1 j i c ix vals)
  obtain rv gv bv where v: "vals = (rv, gv, bv)" by (cases vals) auto
  show ?case
  proof (cases "j < 8")
    case True
    define vals1 where "vals1 = (rv[j := palette_r c ! unat (ix ! (i + j))],
       gv[j := palette_g c ! unat (ix ! (i + j))], bv[j := palette_b c ! unat (ix ! (i + j))])"
    have unf: "neon_gather_loop j i c ix vals = neon_gather_loop (j + 1) i c ix vals1"
      using True by (subst neon_gather_loop.simps) (simp add: Let_def v vals1_def)
    have lens: "length (fst vals1) = 8" "length (fst (snd vals1)) = 8" "length (snd (snd vals1)) = 8"
      using 1(2-4) by (simp_all add: v vals1_def)
    note ih = 1(1)[OF True v[symmetric] refl refl, folded vals1_def, OF lens]
    have step: "\<And>l. l < 8 \<Longrightarrow>
        (if j + 1 \<le> l then palette_r c ! unat (ix ! (i + l)) else fst vals1 ! l) =
        (if j \<le> l then palette_r c ! unat (ix ! (i + l)) else fst vals ! l) \<and>
        (if j + 1 \<le> l then palette_g c ! unat (ix ! (i + l)) else fst (snd vals1) ! l) =
        (if j \<le> l then palette_g c ! unat (ix ! (i + l)) else fst (snd vals) ! l) \<and>
        (if j + 1 \<le> l then palette_b c ! unat (ix ! (i + l)) else snd (snd vals1) ! l) =
        (if j \<le> l then palette_b c ! unat (ix ! (i + l)) else snd (snd vals) ! l)"
    proof -
      fix l :: nat assume "l < 8"
      have "l = j \<or> l < j \<or> j + 1 \<le> l" by arith
      then show "(if j + 1 \<le> l then palette_r c ! unat (ix ! (i + l)) else fst vals1 ! l) =
        (if j \<le> l then palette_r c ! unat (ix ! (i + l)) else fst vals ! l) \<and>
        (if j + 1 \<le> l then palette_g c ! unat (ix ! (i + l)) else fst (snd vals1) ! l) =
        (if j \<le> l then palette_g c ! unat (ix ! (i + l)) else fst (snd vals) ! l) \<and>
        (if j + 1 \<le> l then palette_b c ! unat (ix ! (i + l)) else snd (snd vals1) ! l) =
        (if j \<le> l then palette_b c ! unat (ix ! (i + l)) else snd (snd vals) ! l)"
        using True 1(2-4) by (auto simp: v vals1_def nth_list_update)
    qed
    show ?thesis unfolding unf using ih step by simp
  next
    case False
    then show ?thesis using 1(2-4) by (subst (1 2 3 4 5 6) neon_gather_loop.simps) auto
  qed
qed

lemma vst3_lanes_length: "length (vst3_lanes n mem p rgb) = length mem"
  by (induction n) (auto split: prod.splits)

lemma vst3_lanes_nth:
  assumes "p + 3 * n \<le> length mem"
  shows "vst3_lanes n mem p (v0, v1, v2) ! m =
     (if p \<le> m \<and> m < p + 3 * n then
        (if (m - p) mod 3 = 0 then v0 ! ((m - p) div 3)
         else if (m - p) mod 3 = 1 then v1 ! ((m - p) div 3)
         else v2 ! ((m - p) div 3))
      else mem ! m)"
  using assms
proof (induction n)
  case 0
  then show ?case by auto
next
  case (Suc n)
  have ih: "vst3_lanes n mem p (v0, v1, v2) ! m =
     (if p \<le> m \<and> m < p + 3 * n then
        (if (m - p) mod 3 = 0 then v0 ! ((m - p) div 3)
         else if (m - p) mod 3 = 1 then v1 ! ((m - p) div 3)
         else v2 ! ((m - p) div 3))
      else mem ! m)" using Suc by simp
  have len: "length (vst3_lanes n mem p (v0, v1, v2)) = length mem" by (rule vst3_lanes_length)
  have cases: "m = p + 3 * n \<or> m = p + 3 * n + 1 \<or> m = p + 3 * n + 2 \<or> m < p + 3 * n \<or> p + 3 * Suc n \<le> m"
    by arith
  have a0: "(3 * n) mod 3 = (0::nat)" "(3 * n) div 3 = n" by simp_all
  have a1: "(3 * n + 1) mod 3 = (1::nat)" "(3 * n + 1) div 3 = n" by simp_all
  have a2: "(3 * n + 2) mod 3 = (2::nat)" "(3 * n + 2) div 3 = n" by presburger+
  from cases show ?case
  proof (elim disjE)
    assume "m = p + 3 * n"
    then show ?thesis using Suc.prems len a0 by (simp add: nth_list_update)
  next
    assume "m = p + 3 * n + 1"
    then show ?thesis using Suc.prems len a1 by (simp add: nth_list_update)
  next
    assume "m = p + 3 * n + 2"
    then show ?thesis using Suc.prems len a2 by (simp add: nth_list_update)
  next
    assume "m < p + 3 * n"
    then show ?thesis using ih len by (simp add: nth_list_update)
  next
    assume "p + 3 * Suc n \<le> m"
    then show ?thesis using ih len by (simp add: nth_list_update)
  qed
qed

lemma neon_loop_length:
  "length (palette_to_rgb24_neon_loop i s c ix vals out) = length out"
proof (induction i s c ix vals out rule: palette_to_rgb24_neon_loop.induct)
  case (1 i s c ix vals out)
  show ?case
  proof (cases "i < s")
    case True
    then show ?thesis using 1
      by (subst palette_to_rgb24_neon_loop.simps)
         (auto simp: Let_def vst3_u8_def vst3_lanes_length split: prod.splits simp del: vst3_lanes.simps)
  next
    case False
    then show ?thesis by (subst palette_to_rgb24_neon_loop.simps) simp
  qed
qed

lemma neon_loop_nth:
  assumes "3 * s \<le> length out" "8 dvd (s - i)"
    "length (fst vals) = 8" "length (fst (snd vals)) = 8" "length (snd (snd vals)) = 8"
  shows "palette_to_rgb24_neon_loop i s c ix vals out ! m =
     (if 3 * i \<le> m \<and> m < 3 * s then px c ix m else out ! m)"
  using assms
proof (induction i s c ix vals out rule: palette_to_rgb24_neon_loop.induct)
  case (1 i s c ix vals out)
  show ?case
  proof (cases "i < s")
    case True
    define vals1 where "vals1 = neon_gather_loop 0 i c ix vals"
    obtain r' g' b' where res: "vals1 = (r', g', b')" by (cases vals1) auto
    from gather_loop_props[OF 1(4-6), of 0 i c ix, folded vals1_def]
    have l': "length r' = 8" "length g' = 8" "length b' = 8"
      and nth': "\<forall>l<8. r' ! l = palette_r c ! unat (ix ! (i + l)) \<and>
              g' ! l = palette_g c ! unat (ix ! (i + l)) \<and>
              b' ! l = palette_b c ! unat (ix ! (i + l))"
      by (auto simp: res)
    define out1 where "out1 = vst3_u8 out (i * 3) (vld1_u8 r', vld1_u8 g', vld1_u8 b')"
    have unf: "palette_to_rgb24_neon_loop i s c ix vals out =
               palette_to_rgb24_neon_loop (i + 8) s c ix (r', g', b') out1"
      using True res by (subst palette_to_rgb24_neon_loop.simps) (simp add: Let_def out1_def vals1_def)
    from 1(3) obtain k where k: "s - i = 8 * k" by (auto simp: dvd_def)
    with True have kpos: "k > 0" by auto
    have i8: "i + 8 \<le> s" using k kpos by arith
    have "s - (i + 8) = 8 * (k - 1)" using k kpos by arith
    then have dvd': "8 dvd (s - (i + 8))" by simp
    have len1: "length out1 = length out" by (simp add: out1_def vst3_u8_def vst3_lanes_length del: vst3_lanes.simps)
    have ih: "palette_to_rgb24_neon_loop (i + 8) s c ix (r', g', b') out1 ! m =
       (if 3 * (i + 8) \<le> m \<and> m < 3 * s then px c ix m else out1 ! m)"
      using 1(1)[OF True res[unfolded vals1_def, symmetric] refl refl refl refl, folded out1_def] 1(2) dvd' l' len1
      by simp
    have fits: "i * 3 + 3 * 8 \<le> length out" using i8 1(2) by simp
    have o1: "out1 ! m = (if 3 * i \<le> m \<and> m < 3 * (i + 8) then px c ix m else out ! m)"
    proof (cases "3 * i \<le> m \<and> m < 3 * (i + 8)")
      case False
      then show ?thesis unfolding out1_def vst3_u8_def
        by (subst vst3_lanes_nth[OF fits]) (auto simp: mult.commute)
    next
      case T: True
      define d where "d = m - i * 3"
      have d: "m = i * 3 + d" "d < 24" using T by (auto simp: d_def)
      have dl: "d div 3 < 8" using d by simp
      have v: "vld1_u8 r' ! (d div 3) = palette_r c ! unat (ix ! (i + d div 3))"
              "vld1_u8 g' ! (d div 3) = palette_g c ! unat (ix ! (i + d div 3))"
              "vld1_u8 b' ! (d div 3) = palette_b c ! unat (ix ! (i + d div 3))"
        using nth'[rule_format, OF dl] dl by (simp_all add: vld1_u8_def)
      have md: "m mod 3 = d mod 3" "m div 3 = i + d div 3" using d(1) by simp_all
      have "vst3_lanes 8 out (i * 3) (vld1_u8 r', vld1_u8 g', vld1_u8 b') ! m =
           (if d mod 3 = 0 then vld1_u8 r' ! (d div 3)
            else if d mod 3 = 1 then vld1_u8 g' ! (d div 3) else vld1_u8 b' ! (d div 3))"
        using T by (subst vst3_lanes_nth[OF fits]) (auto simp: d_def mult.commute)
      then show ?thesis using T unfolding out1_def vst3_u8_def px_def md v by simp
    qed
    show ?thesis unfolding unf ih o1 using True i8 by auto
  next
    case False
    then show ?thesis by (subst palette_to_rgb24_neon_loop.simps) auto
  qed
qed

lemma neon_impl_nth:
  assumes "3 * n \<le> length out"
  shows "palette_to_rgb24_neon_impl c ix out n ! m = (if m < 3 * n then px c ix m else out ! m)"
proof -
  define s where "s = (n div 8) * 8"
  have sn: "s \<le> n" by (simp add: s_def)
  define out1 where "out1 = palette_to_rgb24_neon_loop 0 s c ix (replicate 8 0, replicate 8 0, replicate 8 0) out"
  have len1: "length out1 = length out" by (simp add: out1_def neon_loop_length)
  have o1: "out1 ! m = (if 3 * 0 \<le> m \<and> m < 3 * s then px c ix m else out ! m)"
    unfolding out1_def using assms sn by (intro neon_loop_nth) (auto simp: s_def)
  have "palette_to_rgb24_neon_impl c ix out n ! m = palette_to_rgb24_scalar_loop s n c ix out1 ! m"
    by (simp add: palette_to_rgb24_neon_impl_def Let_def s_def out1_def)
  also have "\<dots> = (if 3 * s \<le> m \<and> m < 3 * n then px c ix m else out1 ! m)"
    using assms len1 by (intro scalar_loop_nth) simp
  finally show ?thesis using o1 sn by auto
qed

lemma neon_impl_length: "length (palette_to_rgb24_neon_impl c ix out n) = length out"
  by (simp add: palette_to_rgb24_neon_impl_def Let_def scalar_loop_length neon_loop_length)

lemma palette_init_holds:
  assumes "length (palette_r c) = 256" "length (palette_g c) = 256" "length (palette_b c) = 256"
  shows "cache_holds p (palette_init p c)"
  unfolding cache_holds_def palette_init_def
  using palette_init_loop_nth[OF assms, of _ 0 p] by simp

lemma px_cache_holds:
  assumes "cache_holds p c" "k < 3"
  shows "px c ix (3 * i + k) = p ! (3 * unat (ix ! i) + k)"
proof -
  have u: "unat (ix ! i) < 256"
    by (rule order_less_le_trans[OF unsigned_less]) simp
  have k: "k = 0 \<or> k = 1 \<or> k = 2" using assms(2) by arith
  have dm: "(3 * i + k) div 3 = i" "(3 * i + k) mod 3 = k" using assms(2) by simp_all
  from assms(1)[unfolded cache_holds_def, rule_format, OF u] k
  show ?thesis unfolding px_def dm by (auto simp: mult.commute)
qed

text \<open>
  Claim C1. For a 768-byte palette, an index buffer holding at least \<open>N\<close> pixels and an output
  buffer of at least \<open>3 * N\<close> bytes, on a cache that is either not yet initialised or holds
  that same palette, both builds of \<open>palette_to_rgb24\<close> leave the buffer length unchanged
  (so a \<open>3 * N\<close>-byte buffer gives \<open>3 * N\<close> bytes of output), put
  \<open>palette[3 * indexed[i] + k]\<close> at offset \<open>3 * i + k\<close> for every pixel \<open>i < N\<close> and channel
  \<open>k < 3\<close>, leave any byte beyond \<open>3 * N\<close> as it was, and the NEON build (batches of 8, then
  the remainder) returns the same buffer as the scalar build. \<open>N = 0\<close> and \<open>N\<close> not a
  multiple of 8 are included.
\<close>

theorem palette_to_rgb24_correct:
  assumes pal: "length palette = 768"
    and ix: "N \<le> length indexed"
    and buf: "3 * N \<le> length rgb24"
    and arrays: "length (palette_r c) = 256" "length (palette_g c) = 256" "length (palette_b c) = 256"
    and cached: "palette_initialized c \<longrightarrow> cache_holds palette c"
  shows "length (snd (palette_to_rgb24 neon c indexed rgb24 palette N)) = length rgb24 \<and>
         (\<forall>i<N. \<forall>k<3. snd (palette_to_rgb24 neon c indexed rgb24 palette N) ! (3 * i + k) =
                         palette ! (3 * unat (indexed ! i) + k)) \<and>
         (\<forall>m\<ge>3 * N. snd (palette_to_rgb24 neon c indexed rgb24 palette N) ! m = rgb24 ! m) \<and>
         snd (palette_to_rgb24 True c indexed rgb24 palette N) =
         snd (palette_to_rgb24 False c indexed rgb24 palette N)"
proof -
  define c' where "c' = (if \<not> palette_initialized c then palette_init palette c else c)"
  have holds: "cache_holds palette c'"
    using cached palette_init_holds[OF arrays] by (simp add: c'_def)
  have sc: "snd (palette_to_rgb24 False c indexed rgb24 palette N) =
            palette_to_rgb24_scalar_loop 0 N c' indexed rgb24"
    by (simp add: palette_to_rgb24_def Let_def c'_def palette_to_rgb24_scalar_def)
  have ne: "snd (palette_to_rgb24 True c indexed rgb24 palette N) =
            palette_to_rgb24_neon_impl c' indexed rgb24 N"
    by (simp add: palette_to_rgb24_def Let_def c'_def)
  have sc_nth: "\<And>m. palette_to_rgb24_scalar_loop 0 N c' indexed rgb24 ! m =
                  (if m < 3 * N then px c' indexed m else rgb24 ! m)"
    using scalar_loop_nth[OF buf, of 0 c' indexed] by simp
  have ne_nth: "\<And>m. palette_to_rgb24_neon_impl c' indexed rgb24 N ! m =
                  (if m < 3 * N then px c' indexed m else rgb24 ! m)"
    by (rule neon_impl_nth[OF buf])
  have same: "palette_to_rgb24_neon_impl c' indexed rgb24 N =
              palette_to_rgb24_scalar_loop 0 N c' indexed rgb24"
    by (rule nth_equalityI) (simp_all add: neon_impl_length scalar_loop_length sc_nth ne_nth)
  have out: "snd (palette_to_rgb24 neon c indexed rgb24 palette N) =
             palette_to_rgb24_scalar_loop 0 N c' indexed rgb24"
    using sc ne same by (cases neon) simp_all
  have pix: "\<forall>i<N. \<forall>k<3. palette_to_rgb24_scalar_loop 0 N c' indexed rgb24 ! (3 * i + k) =
                  palette ! (3 * unat (indexed ! i) + k)"
  proof (intro allI impI)
    fix i k :: nat assume "i < N" "k < 3"
    then have "3 * i + k < 3 * N" by arith
    then show "palette_to_rgb24_scalar_loop 0 N c' indexed rgb24 ! (3 * i + k) =
               palette ! (3 * unat (indexed ! i) + k)"
      using sc_nth[of "3 * i + k"] px_cache_holds[OF holds \<open>k < 3\<close>, of indexed i] by simp
  qed
  have rest: "\<forall>m\<ge>3 * N. palette_to_rgb24_scalar_loop 0 N c' indexed rgb24 ! m = rgb24 ! m"
    using sc_nth by simp
  show ?thesis
    unfolding out using pix rest sc ne same by (simp add: scalar_loop_length)
qed

theorem palette_to_rgb24_correct_witness:
  "length (snd (palette_to_rgb24 True palette_static demo_indexed (replicate 27 0) demo_palette 9)) = 27 \<and>
   snd (palette_to_rgb24 True palette_static demo_indexed (replicate 27 0) demo_palette 9) ! 4 = 89 \<and>
   snd (palette_to_rgb24 True palette_static demo_indexed (replicate 27 0) demo_palette 9) ! 26 = 233 \<and>
   snd (palette_to_rgb24 True palette_static demo_indexed (replicate 27 0) demo_palette 9) =
   snd (palette_to_rgb24 False palette_static demo_indexed (replicate 27 0) demo_palette 9)"
proof -
  have h1: "length demo_palette = 768" by (simp add: demo_palette_def)
  have h2: "9 \<le> length demo_indexed" by (simp add: demo_indexed_def)
  have h3: "3 * 9 \<le> length (replicate 27 (0 :: uint8_t))" by simp
  have h4: "length (palette_r palette_static) = 256" "length (palette_g palette_static) = 256"
    "length (palette_b palette_static) = 256" by (simp_all add: palette_static_def)
  have h5: "palette_initialized palette_static \<longrightarrow> cache_holds demo_palette palette_static"
    by (simp add: palette_static_def)
  note t = palette_to_rgb24_correct[OF h1 h2 h3 h4 h5, of True]
  have a: "snd (palette_to_rgb24 True palette_static demo_indexed (replicate 27 0) demo_palette 9) ! (3 * 1 + 1) =
           demo_palette ! (3 * unat (demo_indexed ! 1) + 1)"
    by (rule t[THEN conjunct2, THEN conjunct1, rule_format]) simp_all
  have b: "snd (palette_to_rgb24 True palette_static demo_indexed (replicate 27 0) demo_palette 9) ! (3 * 8 + 2) =
           demo_palette ! (3 * unat (demo_indexed ! 8) + 2)"
    by (rule t[THEN conjunct2, THEN conjunct1, rule_format]) simp_all
  have av: "demo_palette ! (3 * unat (demo_indexed ! 1) + 1) = 89"
    by (simp add: demo_palette_def demo_indexed_def)
  have bv: "demo_palette ! (3 * unat (demo_indexed ! 8) + 2) = 233"
    by (simp add: demo_palette_def demo_indexed_def)
  have len: "length (snd (palette_to_rgb24 True palette_static demo_indexed (replicate 27 0) demo_palette 9)) = 27"
    using t[THEN conjunct1] by simp
  have a': "snd (palette_to_rgb24 True palette_static demo_indexed (replicate 27 0) demo_palette 9) ! 4 = 89"
    using a av by simp
  have b': "snd (palette_to_rgb24 True palette_static demo_indexed (replicate 27 0) demo_palette 9) ! 26 = 233"
    using b bv by simp
  show ?thesis
    by (intro conjI len a' b' t[THEN conjunct2, THEN conjunct2, THEN conjunct2])
qed

section \<open>Input parser: the hold mechanism\<close>

subsection \<open>The held-key bitmap\<close>

lemma key_word_bit_inj:
  assumes "0 \<le> k" "k < 256" "0 \<le> k'" "k' < 256"
    "nat (k div 64) = nat (k' div 64)" "nat (k mod 64) = nat (k' mod 64)"
  shows "k = (k'::int)"
proof -
  have a: "0 \<le> k div 64" "0 \<le> k' div 64" "0 \<le> k mod 64" "0 \<le> k' mod 64"
    using assms(1-4) by presburger+
  have d: "k div 64 = k' div 64" using a assms(5) by arith
  have m: "k mod 64 = k' mod 64" using a assms(6) by arith
  show ?thesis using d m by (metis mult_div_mod_eq)
qed

lemma word_idx_lt4:
  assumes "0 \<le> k" "k < 256"
  shows "nat (k div 64) < 4"
proof -
  have "k div 64 < 4" "0 \<le> k div 64" using assms by presburger+
  then show ?thesis by arith
qed

lemma bit_idx_lt64: "nat ((k::int) mod 64) < 64"
  by simp

lemma held_test_bit: "((w::64 word) AND 2 ^ b \<noteq> 0) = bit w b"
  by (simp add: and_exp_eq_0_iff_not_bit)

lemma bit_set_other: "b < 64 \<Longrightarrow> bit ((w::64 word) OR 2 ^ b) c = (bit w c \<or> c = b)"
  by (auto simp: bit_simps)

lemma bit_clear_other: "b < 64 \<Longrightarrow> bit ((w::64 word) AND NOT (2 ^ b)) c = (bit w c \<and> c \<noteq> b)"
  by (auto simp: bit_simps dest: bit_imp_le_length)

lemma is_key_held_bit:
  "is_key_held s k = (0 \<le> k \<and> k < 256 \<and> bit (held_keys_bitmap s ! nat (k div 64)) (nat (k mod 64)))"
  by (simp add: is_key_held_def MAX_KEY_CODE_def Let_def held_test_bit)

lemma is_key_held_range: "is_key_held s k \<Longrightarrow> 0 \<le> k \<and> k < 256"
  by (simp add: is_key_held_bit)

lemma mark_key_held_length [simp]:
  "length (held_keys_bitmap (mark_key_held s k)) = length (held_keys_bitmap s)"
  by (simp add: mark_key_held_def Let_def)

lemma mark_key_released_length [simp]:
  "length (held_keys_bitmap (mark_key_released s k)) = length (held_keys_bitmap s)"
  by (simp add: mark_key_released_def Let_def)

lemma is_key_held_mark_held:
  assumes "length (held_keys_bitmap s) = 4"
  shows "is_key_held (mark_key_held s k) k' = (is_key_held s k' \<or> (k' = k \<and> 0 \<le> k \<and> k < 256))"
proof (cases "0 \<le> k \<and> k < 256")
  case False
  then show ?thesis by (auto simp: mark_key_held_def MAX_KEY_CODE_def)
next
  case True
  show ?thesis
  proof (cases "0 \<le> k' \<and> k' < 256")
    case False
    then show ?thesis by (auto simp: is_key_held_bit)
  next
    case k': True
    have w: "nat (k div 64) < 4" "nat (k' div 64) < 4" using True k' by (simp_all add: word_idx_lt4)
    show ?thesis
    proof (cases "nat (k div 64) = nat (k' div 64)")
      case same: True
      have "(nat (k' mod 64) = nat (k mod 64)) = (k' = k)"
        using key_word_bit_inj[OF _ _ _ _ same] True k' by auto
      then show ?thesis using True k' w assms same
        by (simp add: is_key_held_bit mark_key_held_def MAX_KEY_CODE_def Let_def bit_set_other)
    next
      case diff: False
      then have "k' \<noteq> k" by auto
      then show ?thesis using True k' w assms diff
        by (simp add: is_key_held_bit mark_key_held_def MAX_KEY_CODE_def Let_def)
    qed
  qed
qed

lemma is_key_held_mark_released:
  assumes "length (held_keys_bitmap s) = 4"
  shows "is_key_held (mark_key_released s k) k' = (is_key_held s k' \<and> k' \<noteq> k)"
proof (cases "0 \<le> k \<and> k < 256")
  case False
  then show ?thesis by (auto simp: mark_key_released_def MAX_KEY_CODE_def is_key_held_bit)
next
  case True
  show ?thesis
  proof (cases "0 \<le> k' \<and> k' < 256")
    case False
    then show ?thesis by (auto simp: is_key_held_bit)
  next
    case k': True
    have w: "nat (k div 64) < 4" "nat (k' div 64) < 4" using True k' by (simp_all add: word_idx_lt4)
    show ?thesis
    proof (cases "nat (k div 64) = nat (k' div 64)")
      case same: True
      have "(nat (k' mod 64) = nat (k mod 64)) = (k' = k)"
        using key_word_bit_inj[OF _ _ _ _ same] True k' by auto
      then show ?thesis using True k' w assms same
        by (simp add: is_key_held_bit mark_key_released_def MAX_KEY_CODE_def Let_def bit_clear_other)
    next
      case diff: False
      then have "k' \<noteq> k" by auto
      then show ?thesis using True k' w assms diff
        by (simp add: is_key_held_bit mark_key_released_def MAX_KEY_CODE_def Let_def)
    qed
  qed
qed

lemma is_key_held_cong:
  "held_keys_bitmap s = held_keys_bitmap t \<Longrightarrow> is_key_held s k = is_key_held t k"
  by (simp add: is_key_held_def)

subsection \<open>Fields that the small operations leave alone\<close>

lemma clock_gettime_simps [simp]:
  "fst (clock_gettime s) = clock s (clock_reads s)"
  "snd (clock_gettime s) = s\<lparr>clock_reads := clock_reads s + 1\<rparr>"
  by (simp_all add: clock_gettime_def)

lemma doom_key_down_simps [simp]:
  "events (doom_key_down s k) = events s @ [Doom_key_down k]"
  "pending_releases (doom_key_down s k) = pending_releases s"
  "held_keys_bitmap (doom_key_down s k) = held_keys_bitmap s"
  "clock (doom_key_down s k) = clock s"
  "clock_reads (doom_key_down s k) = clock_reads s"
  "state (doom_key_down s k) = state s"
  "mouse (doom_key_down s k) = mouse s"
  by (simp_all add: doom_key_down_def)

lemma doom_key_up_simps [simp]:
  "events (doom_key_up s k) = events s @ [Doom_key_up k]"
  "pending_releases (doom_key_up s k) = pending_releases s"
  "held_keys_bitmap (doom_key_up s k) = held_keys_bitmap s"
  "clock (doom_key_up s k) = clock s"
  "clock_reads (doom_key_up s k) = clock_reads s"
  "state (doom_key_up s k) = state s"
  "mouse (doom_key_up s k) = mouse s"
  by (simp_all add: doom_key_up_def)

lemma mark_key_held_simps [simp]:
  "events (mark_key_held s k) = events s"
  "pending_releases (mark_key_held s k) = pending_releases s"
  "clock (mark_key_held s k) = clock s"
  "clock_reads (mark_key_held s k) = clock_reads s"
  "state (mark_key_held s k) = state s"
  "mouse (mark_key_held s k) = mouse s"
  by (simp_all add: mark_key_held_def Let_def)

lemma mark_key_released_simps [simp]:
  "events (mark_key_released s k) = events s"
  "pending_releases (mark_key_released s k) = pending_releases s"
  "clock (mark_key_released s k) = clock s"
  "clock_reads (mark_key_released s k) = clock_reads s"
  "state (mark_key_released s k) = state s"
  "mouse (mark_key_released s k) = mouse s"
  by (simp_all add: mark_key_released_def Let_def)

lemma remove_release_simps [simp]:
  "events (remove_release s i) = events s"
  "pending_releases (remove_release s i) = take i (pending_releases s) @ drop (Suc i) (pending_releases s)"
  "held_keys_bitmap (remove_release s i) = held_keys_bitmap s"
  "clock (remove_release s i) = clock s"
  "clock_reads (remove_release s i) = clock_reads s"
  "state (remove_release s i) = state s"
  "mouse (remove_release s i) = mouse s"
  by (simp_all add: remove_release_def)

lemma is_key_held_simps [simp]:
  "is_key_held (doom_key_down s k) k' = is_key_held s k'"
  "is_key_held (doom_key_up s k) k' = is_key_held s k'"
  "is_key_held (remove_release s i) k' = is_key_held s k'"
  "is_key_held (s\<lparr>clock_reads := n\<rparr>) k' = is_key_held s k'"
  "is_key_held (s\<lparr>pending_releases := ps\<rparr>) k' = is_key_held s k'"
  "is_key_held (s\<lparr>state := st\<rparr>) k' = is_key_held s k'"
  by (simp_all add: is_key_held_def)

subsection \<open>Scheduling a release\<close>

lemma update_release_None: "update_release ps k t = None \<longleftrightarrow> k \<notin> key ` set ps"
  by (induction ps) auto

lemma update_release_Some_nth:
  assumes "i < length ps" "key (ps ! i) = k" "\<forall>j<i. key (ps ! j) \<noteq> k"
  shows "update_release ps k t = Some (ps[i := \<lparr>key = k, release_time = t\<rparr>])"
  using assms
proof (induction ps arbitrary: i)
  case Nil
  then show ?case by simp
next
  case (Cons p ps)
  show ?case
  proof (cases i)
    case 0
    then show ?thesis using Cons.prems by simp
  next
    case (Suc i')
    have "key p \<noteq> k" using Cons.prems(3) Suc by auto
    moreover have "update_release ps k t = Some (ps[i' := \<lparr>key = k, release_time = t\<rparr>])"
      using Cons.prems Suc by (intro Cons.IH) auto
    ultimately show ?thesis using Suc by simp
  qed
qed

lemma sched_key_release_simps [simp]:
  "events (sched_key_release s k d) = events s"
  "clock (sched_key_release s k d) = clock s"
  "clock_reads (sched_key_release s k d) = clock_reads s + 1"
  "state (sched_key_release s k d) = state s"
  "mouse (sched_key_release s k d) = mouse s"
  "length (held_keys_bitmap (sched_key_release s k d)) = length (held_keys_bitmap s)"
  by (simp_all add: sched_key_release_def clock_gettime_def Let_def split: option.splits)

text \<open>A key with no entry, room in the list: the entry is appended and the bit set.\<close>

lemma sched_key_release_new:
  assumes "k \<notin> key ` set (pending_releases s)" "length (pending_releases s) < 16"
  shows "pending_releases (sched_key_release s k d) =
           pending_releases s @ [\<lparr>key = k, release_time = release_after (clock s (clock_reads s)) d\<rparr>]"
    and "held_keys_bitmap (sched_key_release s k d) = held_keys_bitmap (mark_key_held s k)"
  using assms update_release_None[of "pending_releases s" k]
  by (simp_all add: sched_key_release_def clock_gettime_def Let_def MAX_PENDING_RELEASES_def
        mark_key_held_def)

text \<open>A key with no entry, the list full: nothing is stored and no bit is set.\<close>

lemma sched_key_release_full:
  assumes "k \<notin> key ` set (pending_releases s)" "length (pending_releases s) \<ge> 16"
  shows "sched_key_release s k d = s\<lparr>clock_reads := clock_reads s + 1\<rparr>"
  using assms update_release_None[of "pending_releases s" k]
  by (simp add: sched_key_release_def clock_gettime_def Let_def MAX_PENDING_RELEASES_def)

text \<open>A key with an entry: its release time is replaced, nothing else changes.\<close>

lemma sched_key_release_update:
  assumes "i < length (pending_releases s)" "key (pending_releases s ! i) = k"
    "\<forall>j<i. key (pending_releases s ! j) \<noteq> k"
  shows "sched_key_release s k d =
           s\<lparr>clock_reads := clock_reads s + 1,
             pending_releases := (pending_releases s)
               [i := \<lparr>key = k, release_time = release_after (clock s (clock_reads s)) d\<rparr>]\<rparr>"
  using update_release_Some_nth[OF assms]
  by (simp add: sched_key_release_def clock_gettime_def Let_def)

subsection \<open>Processing the pending releases\<close>

lemma release_loop_other [simp]:
  "clock (release_loop n now s) = clock s"
  "clock_reads (release_loop n now s) = clock_reads s"
  "state (release_loop n now s) = state s"
  "mouse (release_loop n now s) = mouse s"
  "length (held_keys_bitmap (release_loop n now s)) = length (held_keys_bitmap s)"
  by (induction n arbitrary: s) (simp_all add: Let_def)

lemma release_loop_pending:
  "n \<le> length (pending_releases s) \<Longrightarrow>
   pending_releases (release_loop n now s) =
     filter (\<lambda>p. \<not> due now p) (take n (pending_releases s)) @ drop n (pending_releases s)"
proof (induction n arbitrary: s)
  case 0
  then show ?case by simp
next
  case (Suc n)
  let ?P = "pending_releases s"
  have n: "n < length ?P" using Suc.prems by simp
  have tk: "take (Suc n) ?P = take n ?P @ [?P ! n]" using n by (simp add: take_Suc_conv_app_nth)
  show ?case
  proof (cases "due now (?P ! n)")
    case True
    let ?s' = "remove_release (mark_key_released (doom_key_up s (key (?P ! n))) (key (?P ! n))) n"
    have len: "n \<le> length (pending_releases ?s')" using n by simp
    have "pending_releases (release_loop (Suc n) now s) = pending_releases (release_loop n now ?s')"
      using True by (simp add: Let_def due_def)
    also have "\<dots> = filter (\<lambda>p. \<not> due now p) (take n (pending_releases ?s')) @ drop n (pending_releases ?s')"
      by (rule Suc.IH[OF len])
    also have "\<dots> = filter (\<lambda>p. \<not> due now p) (take n ?P) @ drop (Suc n) ?P"
      using n by simp
    finally show ?thesis using True by (simp add: tk)
  next
    case False
    have "pending_releases (release_loop (Suc n) now s) = pending_releases (release_loop n now s)"
      using False by (simp add: Let_def due_def)
    also have "\<dots> = filter (\<lambda>p. \<not> due now p) (take n ?P) @ drop n ?P"
      using Suc.IH[of s] n by simp
    also have "drop n ?P = ?P ! n # drop (Suc n) ?P" using n by (simp add: Cons_nth_drop_Suc)
    finally show ?thesis using False by (simp add: tk)
  qed
qed

lemma release_loop_events:
  "n \<le> length (pending_releases s) \<Longrightarrow>
   events (release_loop n now s) =
     events s @ map (\<lambda>p. Doom_key_up (key p)) (rev (filter (due now) (take n (pending_releases s))))"
proof (induction n arbitrary: s)
  case 0
  then show ?case by simp
next
  case (Suc n)
  let ?P = "pending_releases s"
  have n: "n < length ?P" using Suc.prems by simp
  have tk: "take (Suc n) ?P = take n ?P @ [?P ! n]" using n by (simp add: take_Suc_conv_app_nth)
  show ?case
  proof (cases "due now (?P ! n)")
    case True
    let ?s' = "remove_release (mark_key_released (doom_key_up s (key (?P ! n))) (key (?P ! n))) n"
    have len: "n \<le> length (pending_releases ?s')" using n by simp
    have "events (release_loop (Suc n) now s) = events (release_loop n now ?s')"
      using True by (simp add: Let_def due_def)
    also have "\<dots> = events ?s' @ map (\<lambda>p. Doom_key_up (key p)) (rev (filter (due now) (take n (pending_releases ?s'))))"
      by (rule Suc.IH[OF len])
    finally show ?thesis using True n by (simp add: tk)
  next
    case False
    have "events (release_loop (Suc n) now s) = events (release_loop n now s)"
      using False by (simp add: Let_def due_def)
    then show ?thesis using Suc.IH[of s] n False by (simp add: tk)
  qed
qed

lemma release_loop_held:
  "n \<le> length (pending_releases s) \<Longrightarrow> length (held_keys_bitmap s) = 4 \<Longrightarrow>
   is_key_held (release_loop n now s) k =
     (is_key_held s k \<and> k \<notin> key ` set (filter (due now) (take n (pending_releases s))))"
proof (induction n arbitrary: s)
  case 0
  then show ?case by simp
next
  case (Suc n)
  let ?P = "pending_releases s"
  have n: "n < length ?P" using Suc.prems by simp
  have tk: "take (Suc n) ?P = take n ?P @ [?P ! n]" using n by (simp add: take_Suc_conv_app_nth)
  show ?case
  proof (cases "due now (?P ! n)")
    case True
    let ?s' = "remove_release (mark_key_released (doom_key_up s (key (?P ! n))) (key (?P ! n))) n"
    have len: "n \<le> length (pending_releases ?s')" using n by simp
    have l4: "length (held_keys_bitmap ?s') = 4" using Suc.prems by simp
    have h: "is_key_held ?s' k = (is_key_held s k \<and> k \<noteq> key (?P ! n))"
      using is_key_held_mark_released[of "doom_key_up s (key (?P ! n))" "key (?P ! n)" k] Suc.prems
      by simp
    have "is_key_held (release_loop (Suc n) now s) k = is_key_held (release_loop n now ?s') k"
      using True by (simp add: Let_def due_def)
    also have "\<dots> = (is_key_held ?s' k \<and> k \<notin> key ` set (filter (due now) (take n (pending_releases ?s'))))"
      by (rule Suc.IH[OF len l4])
    finally show ?thesis using True n h by (auto simp: tk)
  next
    case False
    have "is_key_held (release_loop (Suc n) now s) k = is_key_held (release_loop n now s) k"
      using False by (simp add: Let_def due_def)
    then show ?thesis using Suc.IH[of s] Suc.prems n False by (simp add: tk)
  qed
qed

lemma process_pending_releases_other [simp]:
  "clock (process_pending_releases s) = clock s"
  "clock_reads (process_pending_releases s) = clock_reads s + 1"
  "state (process_pending_releases s) = state s"
  "mouse (process_pending_releases s) = mouse s"
  "length (held_keys_bitmap (process_pending_releases s)) = length (held_keys_bitmap s)"
  by (simp_all add: process_pending_releases_def clock_gettime_def)

lemma process_pending_releases_pending:
  "pending_releases (process_pending_releases s) =
     filter (\<lambda>p. \<not> due (clock s (clock_reads s)) p) (pending_releases s)"
  by (simp add: process_pending_releases_def clock_gettime_def release_loop_pending)

lemma process_pending_releases_events:
  "events (process_pending_releases s) =
     events s @ map (\<lambda>p. Doom_key_up (key p))
                  (rev (filter (due (clock s (clock_reads s))) (pending_releases s)))"
  by (simp add: process_pending_releases_def clock_gettime_def release_loop_events)

lemma process_pending_releases_held:
  "length (held_keys_bitmap s) = 4 \<Longrightarrow>
   is_key_held (process_pending_releases s) k =
     (is_key_held s k \<and> k \<notin> key ` set (filter (due (clock s (clock_reads s))) (pending_releases s)))"
  by (simp add: process_pending_releases_def clock_gettime_def release_loop_held)

subsection \<open>One key through polls and repeats\<close>

lemma count_key_up_map:
  "count_list (map (\<lambda>p. Doom_key_up (key p)) ps) (Doom_key_up k) = length (filter (\<lambda>p. key p = k) ps)"
  by (induction ps) auto

lemma count_key_down_map:
  "count_list (map (\<lambda>p. Doom_key_up (key p)) ps) (Doom_key_down k) = 0"
  by (induction ps) auto

lemma count_list_append: "count_list (xs @ ys) x = count_list xs x + count_list ys x"
  by (induction xs) auto

lemma poll_entries:
  "entries_of (process_pending_releases s) k =
     filter (\<lambda>p. \<not> due (clock s (clock_reads s)) p) (entries_of s k)"
  by (simp add: entries_of_def process_pending_releases_pending conj_commute)

lemma poll_count_up:
  "count_list (events (process_pending_releases s)) (Doom_key_up k) =
     count_list (events s) (Doom_key_up k) +
     length (filter (due (clock s (clock_reads s))) (entries_of s k))"
proof -
  have "length (filter (\<lambda>p. key p = k) (rev (filter (due (clock s (clock_reads s))) (pending_releases s)))) =
        length (filter (due (clock s (clock_reads s))) (entries_of s k))"
    by (simp add: rev_filter[symmetric] entries_of_def conj_commute)
  then show ?thesis
    by (simp add: process_pending_releases_events count_list_append count_key_up_map)
qed

lemma poll_count_down:
  "count_list (events (process_pending_releases s)) (Doom_key_down k) =
     count_list (events s) (Doom_key_down k)"
  by (simp add: process_pending_releases_events count_list_append count_key_down_map)

lemma poll_held_keep:
  assumes "length (held_keys_bitmap s) = 4" "entries_of s k = [e]" "\<not> due (clock s (clock_reads s)) e"
  shows "is_key_held (process_pending_releases s) k = is_key_held s k"
proof -
  have "k \<notin> key ` set (filter (due (clock s (clock_reads s))) (pending_releases s))"
  proof
    assume "k \<in> key ` set (filter (due (clock s (clock_reads s))) (pending_releases s))"
    then obtain p where p: "p \<in> set (pending_releases s)" "due (clock s (clock_reads s)) p" "key p = k"
      by auto
    then have "p \<in> set (entries_of s k)" by (simp add: entries_of_def)
    then show False using assms(2,3) p(2) by simp
  qed
  then show ?thesis using assms(1) by (simp add: process_pending_releases_held)
qed

lemma polls_other [simp]:
  "clock (polls n s) = clock s"
  "clock_reads (polls n s) = clock_reads s + n"
  "state (polls n s) = state s"
  "length (held_keys_bitmap (polls n s)) = length (held_keys_bitmap s)"
  by (induction n arbitrary: s) simp_all

lemma polls_length: "length (pending_releases (polls n s)) \<le> length (pending_releases s)"
proof (induction n arbitrary: s)
  case 0
  then show ?case by simp
next
  case (Suc n)
  have "length (pending_releases (process_pending_releases s)) \<le> length (pending_releases s)"
    by (simp add: process_pending_releases_pending)
  then show ?case using Suc[of "process_pending_releases s"] by simp
qed

lemma polls_count_down:
  "count_list (events (polls n s)) (Doom_key_down k) = count_list (events s) (Doom_key_down k)"
  by (induction n arbitrary: s) (simp_all add: poll_count_down)

lemma polls_keep:
  assumes "length (held_keys_bitmap s) = 4" "entries_of s k = [e]"
    "\<forall>j<n. \<not> due (clock s (clock_reads s + j)) e"
  shows "entries_of (polls n s) k = [e] \<and>
         is_key_held (polls n s) k = is_key_held s k \<and>
         count_list (events (polls n s)) (Doom_key_up k) = count_list (events s) (Doom_key_up k)"
  using assms
proof (induction n arbitrary: s)
  case 0
  then show ?case by simp
next
  case (Suc n)
  let ?s = "process_pending_releases s"
  have nd: "\<not> due (clock s (clock_reads s)) e" using Suc.prems(3) by force
  have e: "entries_of ?s k = [e]" using Suc.prems(2) nd by (simp add: poll_entries)
  have h: "is_key_held ?s k = is_key_held s k" by (rule poll_held_keep[OF Suc.prems(1,2) nd])
  have c: "count_list (events ?s) (Doom_key_up k) = count_list (events s) (Doom_key_up k)"
    using Suc.prems(2) nd by (simp add: poll_count_up)
  have later: "\<forall>j<n. \<not> due (clock ?s (clock_reads ?s + j)) e"
  proof (intro allI impI)
    fix j assume "j < n"
    then have "Suc j < Suc n" by simp
    then show "\<not> due (clock ?s (clock_reads ?s + j)) e" using Suc.prems(3) by force
  qed
  have l4: "length (held_keys_bitmap ?s) = 4" using Suc.prems(1) by simp
  show ?case using Suc.IH[OF l4 e later] h c by simp
qed

lemma update_release_entries:
  assumes "update_release ps k t = Some ps'"
  shows "map key ps' = map key ps \<and>
         filter (\<lambda>p. key p \<noteq> k) ps' = filter (\<lambda>p. key p \<noteq> k) ps \<and>
         (\<exists>e es. filter (\<lambda>p. key p = k) ps = e # es \<and>
                  filter (\<lambda>p. key p = k) ps' = \<lparr>key = k, release_time = t\<rparr> # es)"
  using assms
proof (induction ps arbitrary: ps')
  case Nil
  then show ?case by simp
next
  case (Cons p ps)
  show ?case
  proof (cases "key p = k")
    case True
    then have "ps' = p\<lparr>release_time := t\<rparr> # ps" using Cons.prems by simp
    moreover have "p\<lparr>release_time := t\<rparr> = \<lparr>key = k, release_time = t\<rparr>" using True by (cases p) simp
    ultimately show ?thesis using True by simp
  next
    case False
    then obtain qs where qs: "update_release ps k t = Some qs" "ps' = p # qs"
      using Cons.prems by auto
    show ?thesis using Cons.IH[OF qs(1)] qs(2) False by simp
  qed
qed

lemma update_release_single:
  assumes "update_release ps k t = Some ps'" "filter (\<lambda>p. key p = k) ps = [e]"
  shows "ps' = map (\<lambda>p. if key p = k then p\<lparr>release_time := t\<rparr> else p) ps"
  using assms
proof (induction ps arbitrary: ps')
  case Nil
  then show ?case by simp
next
  case (Cons p ps)
  show ?case
  proof (cases "key p = k")
    case True
    then have ps': "ps' = p\<lparr>release_time := t\<rparr> # ps" using Cons.prems(1) by simp
    have "filter (\<lambda>p. key p = k) ps = []" using Cons.prems(2) True by simp
    then have "\<forall>q\<in>set ps. key q \<noteq> k" by (simp add: filter_empty_conv)
    then have "map (\<lambda>p. if key p = k then p\<lparr>release_time := t\<rparr> else p) ps = ps"
      by (intro map_idI) simp
    then show ?thesis using True ps' by simp
  next
    case False
    then obtain qs where qs: "update_release ps k t = Some qs" "ps' = p # qs"
      using Cons.prems(1) by auto
    have "filter (\<lambda>p. key p = k) ps = [e]" using Cons.prems(2) False by simp
    from Cons.IH[OF qs(1) this] show ?thesis using qs(2) False by simp
  qed
qed

text \<open>A repeat of a held key with one entry: \<open>ascii_key\<close> sends nothing and replaces the
  entry's release time.\<close>

lemma ascii_key_first:
  assumes "ascii_doom_key K ch = k" "0 \<le> k" "k < 256" "\<not> is_key_held s k"
    "entries_of s k = []" "length (pending_releases s) < 16" "length (held_keys_bitmap s) = 4"
  shows "events (ascii_key K s ch) = events s @ [Doom_key_down k]"
    and "entries_of (ascii_key K s ch) k = [\<lparr>key = k, release_time = release_after (clock s (clock_reads s)) 50\<rparr>]"
    and "is_key_held (ascii_key K s ch) k"
    and "clock (ascii_key K s ch) = clock s"
    and "clock_reads (ascii_key K s ch) = clock_reads s + 1"
    and "length (held_keys_bitmap (ascii_key K s ch)) = 4"
    and "state (ascii_key K s ch) = state s"
proof -
  have nk: "k \<notin> key ` set (pending_releases s)"
    using assms(5) by (auto simp: entries_of_def filter_empty_conv)
  let ?s0 = "doom_key_down s k"
  have eq: "ascii_key K s ch = sched_key_release ?s0 k 50"
    using assms(1,4) by (simp add: ascii_key_def Let_def)
  have nk0: "k \<notin> key ` set (pending_releases ?s0)" "length (pending_releases ?s0) < 16"
    using nk assms(6) by simp_all
  show "events (ascii_key K s ch) = events s @ [Doom_key_down k]" by (simp add: eq)
  show "entries_of (ascii_key K s ch) k = [\<lparr>key = k, release_time = release_after (clock s (clock_reads s)) 50\<rparr>]"
    using sched_key_release_new(1)[OF nk0, of 50] assms(5) by (simp add: eq entries_of_def)
  have "is_key_held (ascii_key K s ch) k = is_key_held (mark_key_held ?s0 k) k"
    unfolding eq by (rule is_key_held_cong) (rule sched_key_release_new(2)[OF nk0])
  then show "is_key_held (ascii_key K s ch) k"
    using is_key_held_mark_held[of ?s0 k k] assms(2,3,7) by simp
  show "clock (ascii_key K s ch) = clock s" "clock_reads (ascii_key K s ch) = clock_reads s + 1"
    "length (held_keys_bitmap (ascii_key K s ch)) = 4" "state (ascii_key K s ch) = state s"
    using assms(7) by (simp_all add: eq)
qed

lemma ascii_key_repeat:
  assumes "ascii_doom_key K ch = k" "is_key_held s k" "entries_of s k = [e]"
  shows "events (ascii_key K s ch) = events s"
    and "held_keys_bitmap (ascii_key K s ch) = held_keys_bitmap s"
    and "entries_of (ascii_key K s ch) k = [\<lparr>key = k, release_time = release_after (clock s (clock_reads s)) 50\<rparr>]"
    and "map key (pending_releases (ascii_key K s ch)) = map key (pending_releases s)"
    and "filter (\<lambda>p. key p \<noteq> k) (pending_releases (ascii_key K s ch)) = filter (\<lambda>p. key p \<noteq> k) (pending_releases s)"
    and "clock (ascii_key K s ch) = clock s"
    and "clock_reads (ascii_key K s ch) = clock_reads s + 1"
    and "state (ascii_key K s ch) = state s"
    and "ascii_key K s ch =
           s\<lparr>clock_reads := clock_reads s + 1,
             pending_releases :=
               map (\<lambda>p. if key p = k
                        then p\<lparr>release_time := release_after (clock s (clock_reads s)) 50\<rparr> else p)
                 (pending_releases s)\<rparr>"
proof -
  have eq: "ascii_key K s ch = sched_key_release s k 50"
    using assms(1,2) by (simp add: ascii_key_def Let_def)
  have "k \<in> key ` set (pending_releases s)"
  proof -
    have "e \<in> set (entries_of s k)" using assms(3) by simp
    then show ?thesis by (auto simp: entries_of_def)
  qed
  then obtain ps where ps: "update_release (pending_releases s) k (release_after (clock s (clock_reads s)) 50) = Some ps"
    using update_release_None[of "pending_releases s" k] by (metis not_Some_eq)
  have s': "sched_key_release s k 50 = s\<lparr>clock_reads := clock_reads s + 1, pending_releases := ps\<rparr>"
    using ps by (simp add: sched_key_release_def clock_gettime_def Let_def)
  note u = update_release_entries[OF ps]
  show "events (ascii_key K s ch) = events s" "held_keys_bitmap (ascii_key K s ch) = held_keys_bitmap s"
    "clock (ascii_key K s ch) = clock s" "clock_reads (ascii_key K s ch) = clock_reads s + 1"
    "state (ascii_key K s ch) = state s"
    by (simp_all add: eq s')
  show "map key (pending_releases (ascii_key K s ch)) = map key (pending_releases s)"
    using u by (simp add: eq s')
  show "filter (\<lambda>p. key p \<noteq> k) (pending_releases (ascii_key K s ch)) = filter (\<lambda>p. key p \<noteq> k) (pending_releases s)"
    using u by (simp add: eq s')
  show "entries_of (ascii_key K s ch) k = [\<lparr>key = k, release_time = release_after (clock s (clock_reads s)) 50\<rparr>]"
    using u assms(3) by (auto simp: eq s' entries_of_def)
  show "ascii_key K s ch =
           s\<lparr>clock_reads := clock_reads s + 1,
             pending_releases :=
               map (\<lambda>p. if key p = k
                        then p\<lparr>release_time := release_after (clock s (clock_reads s)) 50\<rparr> else p)
                 (pending_releases s)\<rparr>"
    using update_release_single[OF ps assms(3)[unfolded entries_of_def]] by (simp add: eq s')
qed

lemma parse_char_ground:
  "state s = STATE_GROUND \<Longrightarrow> ch \<noteq> 3 \<Longrightarrow> ch \<noteq> 27 \<Longrightarrow> parse_char K s ch = ascii_key K s ch"
  by (simp add: parse_char_def)

text \<open>
  Claim C2 (amended). A literal key arrives in \<open>STATE_GROUND\<close> (any byte but Ctrl-C and
  ESC) while its key code \<open>k\<close> lies in \<open>0..255\<close>, is not held, has no pending release, and
  the pending list has a free slot. The thread then polls \<open>n1 + 1\<close> times, each before the
  release time \<open>d1\<close> of the first occurrence, and the same byte arrives again; it polls
  \<open>n2\<close> more times, each before the new release time \<open>d2\<close>, and once more when \<open>d2\<close> has
  passed. Then
  \<^item> the second occurrence sends nothing to the engine and only replaces the release time
    of the key's entry by \<open>d2\<close>: the state after it is the state before it with that one
    entry's release time changed (and one more reading of the clock taken), so the
    bitmap, the other entries of the pending list with their release times, and every
    other field are as they were;
  \<^item> up to the last poll before \<open>d2\<close> the engine has received exactly one \<open>key_down\<close> and
    no \<open>key_up\<close> for \<open>k\<close>, and the key is still held;
  \<^item> the poll after \<open>d2\<close> sends the one \<open>key_up\<close>: one \<open>key_down\<close> and one \<open>key_up\<close>
    in all, the bit cleared, the entry gone.
  What happens when the list is full is not part of this statement.
\<close>

theorem literal_key_twice:
  assumes ground: "state s = STATE_GROUND" and lit: "ch \<noteq> 3" "ch \<noteq> 27"
    and k: "k = ascii_doom_key K ch" and range: "0 \<le> k" "k < 256"
    and fresh: "\<not> is_key_held s k" "entries_of s k = []"
    and room: "length (pending_releases s) < MAX_PENDING_RELEASES"
    and bitmap: "length (held_keys_bitmap s) = 4"
    and r: "r = clock_reads s"
    and d1: "d1 = release_after (clock s r) 50"
    and s1: "s1 = polls (Suc n1) (parse_char K s ch)"
    and within: "\<forall>j<Suc n1. \<not> time_passed (clock s (r + 1 + j)) d1"
    and s2: "s2 = parse_char K s1 ch"
    and d2: "d2 = release_after (clock s (r + n1 + 2)) 50"
    and s3: "s3 = polls n2 s2"
    and before: "\<forall>j<n2. \<not> time_passed (clock s (r + n1 + 3 + j)) d2"
    and s4: "s4 = process_pending_releases s3"
    and after: "time_passed (clock s (r + n1 + n2 + 3)) d2"
  shows "(events s2 = events s1 \<and> held_keys_bitmap s2 = held_keys_bitmap s1 \<and>
          map key (pending_releases s2) = map key (pending_releases s1) \<and>
          entries_of s2 k = [\<lparr>key = k, release_time = d2\<rparr>] \<and>
          filter (\<lambda>p. key p \<noteq> k) (pending_releases s2) =
            filter (\<lambda>p. key p \<noteq> k) (pending_releases s1) \<and>
          s2 = s1\<lparr>clock_reads := clock_reads s1 + 1,
                  pending_releases :=
                    map (\<lambda>p. if key p = k then p\<lparr>release_time := d2\<rparr> else p)
                      (pending_releases s1)\<rparr>) \<and>
         (count_list (events s3) (Doom_key_down k) = count_list (events s) (Doom_key_down k) + 1 \<and>
          count_list (events s3) (Doom_key_up k) = count_list (events s) (Doom_key_up k) \<and>
          is_key_held s3 k) \<and>
         (count_list (events s4) (Doom_key_down k) = count_list (events s) (Doom_key_down k) + 1 \<and>
          count_list (events s4) (Doom_key_up k) = count_list (events s) (Doom_key_up k) + 1 \<and>
          \<not> is_key_held s4 k \<and> entries_of s4 k = [])"
proof -
  define e1 where "e1 = \<lparr>key = k, release_time = d1\<rparr>"
  define e2 where "e2 = \<lparr>key = k, release_time = d2\<rparr>"
  let ?a = "parse_char K s ch"
  have a_eq: "?a = ascii_key K s ch" by (rule parse_char_ground[OF ground lit])
  note first = ascii_key_first[OF k[symmetric] range fresh room[unfolded MAX_PENDING_RELEASES_def] bitmap,
      folded a_eq]
  have a_ent: "entries_of ?a k = [e1]" using first(2) by (simp add: e1_def d1 r)
  have a_l4: "length (held_keys_bitmap ?a) = 4" by (rule first(6))
  have a_w: "\<forall>j<Suc n1. \<not> due (clock ?a (clock_reads ?a + j)) e1"
  proof (intro allI impI)
    fix j assume j: "j < Suc n1"
    have "clock_reads ?a + j = r + 1 + j" by (simp add: first(5) r)
    then have "clock ?a (clock_reads ?a + j) = clock s (r + 1 + j)" by (simp only: first(4))
    then show "\<not> due (clock ?a (clock_reads ?a + j)) e1"
      using within[rule_format, OF j] by (simp add: due_def e1_def)
  qed
  note k1 = polls_keep[OF a_l4 a_ent a_w, folded s1]
  have s1_held: "is_key_held s1 k" using k1 first(3) by simp
  have s1_ent: "entries_of s1 k = [e1]" using k1 by simp
  have s1_state: "state s1 = STATE_GROUND"
    by (simp add: s1 a_eq first(7)[unfolded a_eq] ground del: polls.simps)
  have s1_clock: "clock s1 = clock s" "clock_reads s1 = r + n1 + 2"
    by (simp_all add: s1 first(4,5)[unfolded a_eq] a_eq r del: polls.simps)
  have s1_l4: "length (held_keys_bitmap s1) = 4"
    by (simp add: s1 a_l4[unfolded a_eq] a_eq del: polls.simps)
  have s1_down: "count_list (events s1) (Doom_key_down k) = count_list (events s) (Doom_key_down k) + 1"
    by (simp add: s1 polls_count_down first(1) count_list_append del: polls.simps)
  have s1_up: "count_list (events s1) (Doom_key_up k) = count_list (events s) (Doom_key_up k)"
    using k1 by (simp add: first(1) count_list_append)
  have s2_eq: "s2 = ascii_key K s1 ch" unfolding s2 by (rule parse_char_ground[OF s1_state lit])
  note rep = ascii_key_repeat[OF k[symmetric] s1_held s1_ent, folded s2_eq]
  have s2_ent: "entries_of s2 k = [e2]" using rep(3) by (simp add: e2_def d2 s1_clock)
  have s2_l4: "length (held_keys_bitmap s2) = 4" using rep(2) s1_l4 by simp
  have s2_held: "is_key_held s2 k" using s1_held is_key_held_cong[OF rep(2), of k] by simp
  have s2_w: "\<forall>j<n2. \<not> due (clock s2 (clock_reads s2 + j)) e2"
  proof (intro allI impI)
    fix j assume j: "j < n2"
    have "clock_reads s2 + j = r + n1 + 3 + j" by (simp add: rep(7) s1_clock)
    then have "clock s2 (clock_reads s2 + j) = clock s (r + n1 + 3 + j)"
      by (simp only: rep(6) s1_clock(1))
    then show "\<not> due (clock s2 (clock_reads s2 + j)) e2"
      using before[rule_format, OF j] by (simp add: due_def e2_def)
  qed
  note k3 = polls_keep[OF s2_l4 s2_ent s2_w, folded s3]
  have s3_down: "count_list (events s3) (Doom_key_down k) = count_list (events s) (Doom_key_down k) + 1"
    by (simp add: s3 polls_count_down rep(1) s1_down)
  have s3_up: "count_list (events s3) (Doom_key_up k) = count_list (events s) (Doom_key_up k)"
    using k3 by (simp add: rep(1) s1_up)
  have s3_held: "is_key_held s3 k" using k3 s2_held by simp
  have "clock_reads s3 = r + n1 + n2 + 3" by (simp add: s3 rep(7) s1_clock)
  moreover have "clock s3 = clock s" by (simp add: s3 rep(6) s1_clock)
  ultimately have s3_clock: "clock s3 (clock_reads s3) = clock s (r + n1 + n2 + 3)"
    by (simp only:)
  have s3_due: "due (clock s3 (clock_reads s3)) e2"
    using after by (simp add: s3_clock due_def e2_def)
  have s3_ent: "entries_of s3 k = [e2]" using k3 by simp
  have s4_ent: "entries_of s4 k = []" by (simp add: s4 poll_entries s3_ent s3_due)
  have s4_down: "count_list (events s4) (Doom_key_down k) = count_list (events s) (Doom_key_down k) + 1"
    by (simp add: s4 poll_count_down s3_down)
  have s4_up: "count_list (events s4) (Doom_key_up k) = count_list (events s) (Doom_key_up k) + 1"
    by (simp add: s4 poll_count_up s3_up s3_ent s3_due)
  have "e2 \<in> set (pending_releases s3)"
  proof -
    have "e2 \<in> set (entries_of s3 k)" using s3_ent by simp
    then show ?thesis by (simp add: entries_of_def)
  qed
  then have "k \<in> key ` set (filter (due (clock s3 (clock_reads s3))) (pending_releases s3))"
    using s3_due by (force simp: e2_def)
  then have s4_held: "\<not> is_key_held s4 k"
    using process_pending_releases_held[of s3 k] by (simp add: s4 s3 s2_l4)
  have s2_whole: "s2 = s1\<lparr>clock_reads := clock_reads s1 + 1,
                  pending_releases :=
                    map (\<lambda>p. if key p = k then p\<lparr>release_time := d2\<rparr> else p)
                      (pending_releases s1)\<rparr>"
    using rep(9) by (simp only: d2 s1_clock)
  have first_part: "events s2 = events s1 \<and> held_keys_bitmap s2 = held_keys_bitmap s1 \<and>
          map key (pending_releases s2) = map key (pending_releases s1) \<and>
          entries_of s2 k = [\<lparr>key = k, release_time = d2\<rparr>] \<and>
          filter (\<lambda>p. key p \<noteq> k) (pending_releases s2) =
            filter (\<lambda>p. key p \<noteq> k) (pending_releases s1)"
    using rep(1,2,4,5) s2_ent by (simp add: e2_def)
  show ?thesis
    using first_part s2_whole s3_down s3_up s3_held s4_down s4_up s4_held s4_ent
    by (intro conjI) simp_all
qed

theorem literal_key_twice_witness:
  "events (parse_char demo_keys (polls 2 (parse_char demo_keys (input_create (ms_clock 20) True) 97)) 97) =
   events (polls 2 (parse_char demo_keys (input_create (ms_clock 20) True) 97)) \<and>
   count_list (events (process_pending_releases (polls 2 (parse_char demo_keys
      (polls 2 (parse_char demo_keys (input_create (ms_clock 20) True) 97)) 97)))) (Doom_key_down 97) = 1 \<and>
   count_list (events (process_pending_releases (polls 2 (parse_char demo_keys
      (polls 2 (parse_char demo_keys (input_create (ms_clock 20) True) 97)) 97)))) (Doom_key_up 97) = 1"
proof -
  define s0 where "s0 = input_create (ms_clock 20) True"
  have h1: "state s0 = STATE_GROUND" by (simp add: s0_def input_create_def)
  have h2: "(97::int) \<noteq> 3" "(97::int) \<noteq> 27" by simp_all
  have h3: "97 = ascii_doom_key demo_keys 97" by (simp add: ascii_doom_key_def)
  have h4: "(0::int) \<le> 97" "(97::int) < 256" by simp_all
  have h5: "\<not> is_key_held s0 97"
    by (simp add: s0_def input_create_def is_key_held_def MAX_KEY_CODE_def)
  have h6: "entries_of s0 97 = []" by (simp add: s0_def input_create_def entries_of_def)
  have h7: "length (pending_releases s0) < MAX_PENDING_RELEASES"
    by (simp add: s0_def input_create_def MAX_PENDING_RELEASES_def)
  have h8: "length (held_keys_bitmap s0) = 4" by (simp add: s0_def input_create_def)
  have h9: "0 = clock_reads s0" by (simp add: s0_def input_create_def)
  have c: "clock s0 = ms_clock 20" by (simp add: s0_def input_create_def)
  have h10: "\<forall>j<Suc 1. \<not> time_passed (clock s0 (0 + 1 + j)) (release_after (clock s0 0) 50)"
    by (auto simp: c ms_clock_def release_after_def time_passed_def less_Suc_eq)
  have h11: "\<forall>j<2. \<not> time_passed (clock s0 (0 + 1 + 3 + j)) (release_after (clock s0 (0 + 1 + 2)) 50)"
    by (auto simp: c ms_clock_def release_after_def time_passed_def less_Suc_eq numeral_2_eq_2)
  have h12: "time_passed (clock s0 (0 + 1 + 2 + 3)) (release_after (clock s0 (0 + 1 + 2)) 50)"
    by (simp add: c ms_clock_def release_after_def time_passed_def)
  have e0: "events s0 = []" by (simp add: s0_def input_create_def)
  note t = literal_key_twice[OF h1 h2 h3 h4 h5 h6 h7 h8 h9 refl refl h10 refl refl refl h11 refl h12,
      unfolded Suc_1]
  have a: "events (parse_char demo_keys (polls 2 (parse_char demo_keys s0 97)) 97) =
           events (polls 2 (parse_char demo_keys s0 97))"
    by (rule t[THEN conjunct1, THEN conjunct1])
  have b: "count_list (events (process_pending_releases (polls 2 (parse_char demo_keys
      (polls 2 (parse_char demo_keys s0 97)) 97)))) (Doom_key_down 97) = 1"
    using t[THEN conjunct2, THEN conjunct2, THEN conjunct1] by (simp add: e0)
  have c: "count_list (events (process_pending_releases (polls 2 (parse_char demo_keys
      (polls 2 (parse_char demo_keys s0 97)) 97)))) (Doom_key_up 97) = 1"
    using t[THEN conjunct2, THEN conjunct2, THEN conjunct2, THEN conjunct1] by (simp add: e0)
  show ?thesis using a b c unfolding s0_def by (intro conjI)
qed

text \<open>
  The claim as stated, for every literal key, fails. A byte \<open>0xC3\<close> read into a signed
  \<open>char\<close> is the key code \<open>-61\<close>, which the bitmap never records, so its second occurrence
  sends \<open>key_down\<close> again. And with sixteen other releases pending (seventeen distinct
  letters within one hold window) the key \<open>s\<close> is neither scheduled nor marked, so its
  second occurrence sends \<open>key_down\<close> again as well.
\<close>

theorem literal_key_twice_counterexample:
  "count_list (events (parse_char demo_keys
      (polls 1 (parse_char demo_keys (input_create (ms_clock 1) True) (- 61))) (- 61)))
      (Doom_key_down (- 61)) = 2 \<and>
   count_list (events (feed demo_keys (input_create (ms_clock 0) True)
      [97, 98, 99, 100, 101, 103, 104, 106, 107, 108, 109, 110, 111, 112, 113, 114, 115, 115]))
      (Doom_key_down 115) = 2"
  by code_simp

subsection \<open>The repeat rule of \<open>csi_key\<close>\<close>

lemma div_million_bounds:
  "1000000 * ((x::int) div 1000000) \<le> x \<and> x - 999999 \<le> 1000000 * (x div 1000000)"
proof -
  have "x = 1000000 * (x div 1000000) + x mod 1000000" by simp
  moreover have "0 \<le> x mod 1000000" "x mod 1000000 < 1000000" by simp_all
  ultimately show ?thesis by linarith
qed

lemma c_div_million:
  "1000000 * c_div a 1000000 \<le> a + 999999 \<and> a - 999999 \<le> 1000000 * c_div a 1000000"
proof (cases "a < 0")
  case True
  have "c_div a 1000000 = - ((- a) div 1000000)" using True by (simp add: c_div_def)
  then show ?thesis using div_million_bounds[of "- a"] by linarith
next
  case False
  have "c_div a 1000000 = a div 1000000" using False by (simp add: c_div_def)
  then show ?thesis using div_million_bounds[of a] by linarith
qed

lemma time_to_release_ms_bounds:
  "(26000000 \<le> ns_until rt now \<longrightarrow> 25 < time_to_release_ms rt now) \<and>
   (ns_until rt now \<le> 25000000 \<longrightarrow> time_to_release_ms rt now \<le> 25)"
proof -
  define a where "a = tv_sec rt - tv_sec now"
  define b where "b = tv_nsec rt - tv_nsec now"
  define q where "q = c_div b 1000000"
  have q: "1000000 * q \<le> b + 999999" "b - 999999 \<le> 1000000 * q"
    using c_div_million[of b] by (simp_all add: q_def)
  have ms: "time_to_release_ms rt now = a * 1000 + q"
    by (simp add: time_to_release_ms_def a_def b_def q_def)
  have ns: "ns_until rt now = a * 1000000000 + b" by (simp add: ns_until_def a_def b_def)
  show ?thesis unfolding ms ns using q by linarith
qed

lemma csi_release_scan_at:
  assumes "i < length (pending_releases s)" "key (pending_releases s ! i) = k"
    "\<forall>j<i. key (pending_releases s ! j) \<noteq> k" "start \<le> i"
  shows "csi_release_scan start now k s =
           (if time_to_release_ms (release_time (pending_releases s ! i)) now > 25
            then (True, remove_release (mark_key_released (doom_key_up s k) k) i)
            else (False, s))"
  using assms
proof (induction "i - start" arbitrary: start)
  case 0
  then have "start = i" by simp
  then show ?case using 0 by (subst csi_release_scan.simps) simp
next
  case (Suc d)
  have lt: "start < i" using Suc.hyps(2) by arith
  then have ne: "key (pending_releases s ! start) \<noteq> k" using Suc.prems(3) by simp
  have "csi_release_scan start now k s = csi_release_scan (start + 1) now k s"
    using lt Suc.prems(1) ne by (subst csi_release_scan.simps) simp
  moreover have "d = i - (start + 1)" using Suc.hyps(2) by arith
  ultimately show ?case using Suc.hyps(1)[of "start + 1"] Suc.prems lt by simp
qed

lemma for_each_modifier_key_down_simps [simp]:
  "events (for_each_modifier_key_down K s m) = events s @ map Doom_key_down (modifier_keys K m)"
  "pending_releases (for_each_modifier_key_down K s m) = pending_releases s"
  "held_keys_bitmap (for_each_modifier_key_down K s m) = held_keys_bitmap s"
  "clock (for_each_modifier_key_down K s m) = clock s"
  "clock_reads (for_each_modifier_key_down K s m) = clock_reads s"
  by (simp_all add: for_each_modifier_key_down_def modifier_keys_def Let_def)

lemma sched_modifier_releases_events [simp]:
  "events (sched_modifier_releases K s m d) = events s"
  by (simp add: sched_modifier_releases_def Let_def)

lemma sched_modifier_releases_none: "m < 2 \<Longrightarrow> sched_modifier_releases K s m d = s"
  by (simp add: sched_modifier_releases_def)

lemma modifier_keys_none: "m < 2 \<Longrightarrow> modifier_keys K m = []"
  by (simp add: modifier_keys_def)

lemma set_remove_nth_keys:
  assumes "i < length P" "\<forall>j<length P. j \<noteq> i \<longrightarrow> key (P ! j) \<noteq> k"
  shows "k \<notin> key ` set (take i P @ drop (Suc i) P)"
proof
  assume "k \<in> key ` set (take i P @ drop (Suc i) P)"
  then obtain p where p: "p \<in> set (take i P) \<or> p \<in> set (drop (Suc i) P)" "key p = k" by auto
  from p(1) show False
  proof
    assume "p \<in> set (take i P)"
    then obtain j where "j < length (take i P)" "take i P ! j = p" by (auto simp: in_set_conv_nth)
    then have "j < length P" "j \<noteq> i" "P ! j = p" using assms(1) by auto
    then show False using assms(2) p(2) by auto
  next
    assume "p \<in> set (drop (Suc i) P)"
    then obtain j where j: "j < length (drop (Suc i) P)" "drop (Suc i) P ! j = p"
      by (auto simp: in_set_conv_nth)
    then have "Suc i + j < length P" "Suc i + j \<noteq> i" "P ! (Suc i + j) = p" by auto
    then show False using assms(2) p(2) by blast
  qed
qed

lemma for_each_modifier_key_down_state:
  "for_each_modifier_key_down K s m = s\<lparr>events := events s @ map Doom_key_down (modifier_keys K m)\<rparr>"
  by (simp add: for_each_modifier_key_down_def modifier_keys_def doom_key_down_def Let_def)

lemma sched_modifier_releases_foldl:
  "sched_modifier_releases K s m d = foldl (\<lambda>t q. sched_key_release t q d) s (modifier_keys K m)"
  by (simp add: sched_modifier_releases_def modifier_keys_def Let_def)

lemma bit_restore: "bit (w::64 word) b \<Longrightarrow> (w AND NOT (2 ^ b)) OR 2 ^ b = w"
  by (rule bit_eqI) (auto simp: bit_simps)

text \<open>Clearing the bit of a held key and setting it again gives the bitmap back.\<close>

lemma mark_held_released_bitmap:
  assumes "is_key_held s k" "length (held_keys_bitmap s) = 4"
  shows "held_keys_bitmap (mark_key_held (mark_key_released s k) k) = held_keys_bitmap s"
proof -
  have r: "0 \<le> k" "k < 256" and b: "bit (held_keys_bitmap s ! nat (k div 64)) (nat (k mod 64))"
    using assms(1) by (simp_all add: is_key_held_bit)
  have w: "nat (k div 64) < length (held_keys_bitmap s)"
    using word_idx_lt4[OF r] assms(2) by simp
  show ?thesis
    using r w bit_restore[OF b]
    by (simp add: mark_key_held_def mark_key_released_def Let_def MAX_KEY_CODE_def)
qed

text \<open>What scheduling a release does to the other keys.\<close>

lemma sched_key_release_keys:
  "key ` set (pending_releases s) \<subseteq> key ` set (pending_releases (sched_key_release s q d))"
  "length (pending_releases s) \<le> 16 \<Longrightarrow> length (pending_releases (sched_key_release s q d)) \<le> 16"
  "length (pending_releases (sched_key_release s q d)) \<le> Suc (length (pending_releases s))"
  "length (pending_releases s) < 16 \<Longrightarrow> q \<in> key ` set (pending_releases (sched_key_release s q d))"
  "q \<noteq> k \<Longrightarrow> entries_of (sched_key_release s q d) k = entries_of s k"
proof -
  let ?t = "release_after (clock s (clock_reads s)) d"
  let ?P = "pending_releases s"
  have all: "key ` set ?P \<subseteq> key ` set (pending_releases (sched_key_release s q d)) \<and>
      (length ?P \<le> 16 \<longrightarrow> length (pending_releases (sched_key_release s q d)) \<le> 16) \<and>
      length (pending_releases (sched_key_release s q d)) \<le> Suc (length ?P) \<and>
      (length ?P < 16 \<longrightarrow> q \<in> key ` set (pending_releases (sched_key_release s q d))) \<and>
      (q \<noteq> k \<longrightarrow> entries_of (sched_key_release s q d) k = entries_of s k)"
  proof (cases "update_release ?P q ?t")
    case None
    then have nq: "q \<notin> key ` set ?P" by (simp add: update_release_None)
    show ?thesis
    proof (cases "length ?P < 16")
      case True
      note n = sched_key_release_new(1)[OF nq True, of d]
      show ?thesis using True by (auto simp: n entries_of_def)
    next
      case False
      then have "sched_key_release s q d = s\<lparr>clock_reads := clock_reads s + 1\<rparr>"
        using nq by (intro sched_key_release_full) simp_all
      then show ?thesis using False by (simp add: entries_of_def)
    qed
  next
    case (Some ps)
    then have p: "pending_releases (sched_key_release s q d) = ps"
      by (simp add: sched_key_release_def clock_gettime_def Let_def)
    note u = update_release_entries[OF Some]
    have mk: "map key ps = map key ?P" using u by simp
    have keys: "key ` set ps = key ` set ?P" using arg_cong[OF mk, of set] by simp
    have len: "length ps = length ?P" using arg_cong[OF mk, of length] by simp
    have qin: "q \<in> key ` set ?P" using Some update_release_None[of ?P q ?t] by auto
    have ent: "filter (\<lambda>p. key p = k) ps = filter (\<lambda>p. key p = k) ?P" if "q \<noteq> k"
    proof -
      have "filter (\<lambda>p. key p = k) xs = filter (\<lambda>p. key p = k) (filter (\<lambda>p. key p \<noteq> q) xs)"
        for xs :: "pending_release_t list"
        using that by (induction xs) auto
      then show ?thesis using u by metis
    qed
    show ?thesis using keys len qin ent by (simp add: p entries_of_def)
  qed
  show "key ` set (pending_releases s) \<subseteq> key ` set (pending_releases (sched_key_release s q d))"
    "length (pending_releases s) \<le> 16 \<Longrightarrow> length (pending_releases (sched_key_release s q d)) \<le> 16"
    "length (pending_releases (sched_key_release s q d)) \<le> Suc (length (pending_releases s))"
    "length (pending_releases s) < 16 \<Longrightarrow> q \<in> key ` set (pending_releases (sched_key_release s q d))"
    "q \<noteq> k \<Longrightarrow> entries_of (sched_key_release s q d) k = entries_of s k"
    using all by simp_all
qed

lemma sched_key_release_held_mono:
  assumes "length (held_keys_bitmap s) = 4" "is_key_held s m"
  shows "is_key_held (sched_key_release s q d) m"
proof (cases "update_release (pending_releases s) q (release_after (clock s (clock_reads s)) d)")
  case None
  then have nq: "q \<notin> key ` set (pending_releases s)" by (simp add: update_release_None)
  show ?thesis
  proof (cases "length (pending_releases s) < 16")
    case True
    have "is_key_held (sched_key_release s q d) m = is_key_held (mark_key_held s q) m"
      by (rule is_key_held_cong) (rule sched_key_release_new(2)[OF nq True])
    then show ?thesis using is_key_held_mark_held[OF assms(1), of q m] assms(2) by simp
  next
    case False
    then have "sched_key_release s q d = s\<lparr>clock_reads := clock_reads s + 1\<rparr>"
      using nq by (intro sched_key_release_full) simp_all
    then show ?thesis using assms(2) by simp
  qed
next
  case (Some ps)
  then have "sched_key_release s q d = s\<lparr>clock_reads := clock_reads s + 1, pending_releases := ps\<rparr>"
    by (simp add: sched_key_release_def clock_gettime_def Let_def)
  then show ?thesis using assms(2) by simp
qed

text \<open>Scheduling a list of keys one after the other, as \<open>sched_modifier_releases\<close> does.\<close>

lemma sched_list_props:
  fixes d :: int
  defines "F \<equiv> foldl (\<lambda>t q. sched_key_release t q d)"
  shows "k \<notin> set qs \<Longrightarrow> entries_of (F t qs) k = entries_of t k"
    and "length (held_keys_bitmap t) = 4 \<Longrightarrow> is_key_held t m \<Longrightarrow> is_key_held (F t qs) m"
    and "length (pending_releases t) + length qs \<le> 16 \<Longrightarrow>
           set qs \<union> key ` set (pending_releases t) \<subseteq> key ` set (pending_releases (F t qs))"
proof -
  show "k \<notin> set qs \<Longrightarrow> entries_of (F t qs) k = entries_of t k"
    unfolding F_def by (induction qs arbitrary: t) (auto simp: sched_key_release_keys(5))
  show "length (held_keys_bitmap t) = 4 \<Longrightarrow> is_key_held t m \<Longrightarrow> is_key_held (F t qs) m"
    unfolding F_def
  proof (induction qs arbitrary: t)
    case Nil
    then show ?case by simp
  next
    case (Cons q qs)
    have "is_key_held (sched_key_release t q d) m"
      by (rule sched_key_release_held_mono[OF Cons.prems])
    moreover have "length (held_keys_bitmap (sched_key_release t q d)) = 4"
      using Cons.prems(1) by simp
    ultimately show ?case using Cons.IH by simp
  qed
  show "length (pending_releases t) + length qs \<le> 16 \<Longrightarrow>
           set qs \<union> key ` set (pending_releases t) \<subseteq> key ` set (pending_releases (F t qs))"
    unfolding F_def
  proof (induction qs arbitrary: t)
    case Nil
    then show ?case by simp
  next
    case (Cons q qs)
    let ?t' = "sched_key_release t q d"
    have room: "length (pending_releases t) < 16" using Cons.prems by simp
    have l: "length (pending_releases ?t') + length qs \<le> 16"
      using sched_key_release_keys(3)[of t q d] Cons.prems by simp
    have q: "q \<in> key ` set (pending_releases ?t')" by (rule sched_key_release_keys(4)[OF room])
    have old: "key ` set (pending_releases t) \<subseteq> key ` set (pending_releases ?t')"
      by (rule sched_key_release_keys(1))
    have ih: "set qs \<union> key ` set (pending_releases ?t') \<subseteq>
        key ` set (pending_releases (foldl (\<lambda>t q. sched_key_release t q d) ?t' qs))"
      by (rule Cons.IH[OF l])
    have "q \<in> key ` set (pending_releases (foldl (\<lambda>t q. sched_key_release t q d) ?t' qs))"
      using ih q by blast
    moreover have "key ` set (pending_releases t) \<subseteq>
        key ` set (pending_releases (foldl (\<lambda>t q. sched_key_release t q d) ?t' qs))"
      using ih old by blast
    moreover have "set qs \<subseteq>
        key ` set (pending_releases (foldl (\<lambda>t q. sched_key_release t q d) ?t' qs))"
      using ih by blast
    ultimately show ?case by simp
  qed
qed

text \<open>
  Claim C3 (amended). An arrow or function key (a CSI key: \<open>csi_doom_key\<close> is not 0) arrives
  while it is marked held and its one pending entry is at index \<open>i\<close>. The code measures the
  time to the release in whole milliseconds, \<open>time_to_release_ms\<close>, the nanosecond part
  divided with truncation towards zero.
  \<^item> If that is more than 25, the engine receives \<open>key_up\<close>, then \<open>key_down\<close> for each
    modifier of the event, then \<open>key_down\<close>. The old entry is removed and a fresh entry
    with the new release time is appended at the end of the list, the bitmap being what it
    was (the key's bit cleared and set again); from that state, written out in the
    statement, the release of each modifier is scheduled in turn. With or without
    modifiers the key is held afterwards; its one entry is the fresh one (when the key is
    not itself one of the modifier keys), and every modifier has an entry when the list
    has room for them.
  \<^item> If it is 25 or less, nothing is sent and nothing is scheduled for the modifiers: the
    state afterwards is the state before with the release time of the entry replaced (and
    two more readings of the clock taken).
  \<^item> The first case applies whenever at least 26 ms remain and the second whenever at most
    25 ms remain; in between the truncation decides.
\<close>

theorem csi_key_held_repeat:
  assumes k: "k = csi_doom_key K ch parm1" "k \<noteq> 0"
    and held: "is_key_held s k"
    and entry: "i < length (pending_releases s)" "key (pending_releases s ! i) = k"
      "\<forall>j<length (pending_releases s). j \<noteq> i \<longrightarrow> key (pending_releases s ! j) \<noteq> k"
    and lens: "length (pending_releases s) \<le> MAX_PENDING_RELEASES" "length (held_keys_bitmap s) = 4"
    and now: "now = clock s (clock_reads s)"
    and rt: "rt = release_time (pending_releases s ! i)"
    and fresh: "fresh = \<lparr>key = k, release_time = release_after (clock s (clock_reads s + 1)) (csi_delay_ms K k)\<rparr>"
    and s': "s' = csi_key K s ch parm1 parm2"
  shows "(25 < time_to_release_ms rt now \<longrightarrow>
            events s' = events s @ [Doom_key_up k] @ map Doom_key_down (modifier_keys K parm2) @
                          [Doom_key_down k] \<and>
            s' = sched_modifier_releases K
                   (s\<lparr>clock_reads := clock_reads s + 2,
                      events := events s @ [Doom_key_up k] @
                                map Doom_key_down (modifier_keys K parm2) @ [Doom_key_down k],
                      pending_releases :=
                        take i (pending_releases s) @ drop (Suc i) (pending_releases s) @ [fresh]\<rparr>)
                   parm2 (csi_delay_ms K k) \<and>
            is_key_held s' k \<and>
            (k \<notin> set (modifier_keys K parm2) \<longrightarrow> entries_of s' k = [fresh]) \<and>
            (length (pending_releases s) + length (modifier_keys K parm2) \<le> MAX_PENDING_RELEASES \<longrightarrow>
               (\<forall>m\<in>set (modifier_keys K parm2). m \<in> key ` set (pending_releases s'))) \<and>
            (parm2 < 2 \<longrightarrow>
               pending_releases s' =
                 take i (pending_releases s) @ drop (Suc i) (pending_releases s) @ [fresh] \<and>
               is_key_held s' k)) \<and>
         (time_to_release_ms rt now \<le> 25 \<longrightarrow>
            events s' = events s \<and> held_keys_bitmap s' = held_keys_bitmap s \<and>
            pending_releases s' = (pending_releases s)[i := fresh] \<and>
            s' = s\<lparr>clock_reads := clock_reads s + 2,
                   pending_releases := (pending_releases s)[i := fresh]\<rparr>) \<and>
         (26000000 \<le> ns_until rt now \<longrightarrow> 25 < time_to_release_ms rt now) \<and>
         (ns_until rt now \<le> 25000000 \<longrightarrow> time_to_release_ms rt now \<le> 25)"
proof -
  let ?P = "pending_releases s"
  let ?d = "csi_delay_ms K k"
  let ?mods = "modifier_keys K parm2"
  let ?E = "events s @ [Doom_key_up k] @ map Doom_key_down ?mods @ [Doom_key_down k]"
  define s0 where "s0 = s\<lparr>clock_reads := clock_reads s + 1\<rparr>"
  define mid where "mid = s\<lparr>clock_reads := clock_reads s + 2, events := ?E,
                            pending_releases := take i ?P @ drop (Suc i) ?P @ [fresh]\<rparr>"
  have first: "\<forall>j<i. key (?P ! j) \<noteq> k" using entry(1,3) by auto
  have range: "0 \<le> k" "k < 256" using is_key_held_range[OF held] by simp_all
  have scan: "csi_release_scan 0 now k s0 =
           (if time_to_release_ms rt now > 25
            then (True, remove_release (mark_key_released (doom_key_up s0 k) k) i)
            else (False, s0))"
    using csi_release_scan_at[of i s0 k 0 now] entry(1,2) first by (simp add: s0_def rt)
  have unf: "s' = (case csi_release_scan 0 now k s0 of
              (is_new_keypress, s1) \<Rightarrow>
                (let s2 = (if is_new_keypress
                           then doom_key_down (for_each_modifier_key_down K s1 parm2) k
                           else s1);
                     s3 = sched_key_release s2 k ?d;
                     s4 = (if is_new_keypress
                           then sched_modifier_releases K s3 parm2 ?d else s3)
                 in s4))"
  proof -
    have kk: "csi_doom_key K ch parm1 = k" using k(1) by simp
    show ?thesis unfolding s' csi_key_def Let_def kk
      using k(2) held by (simp add: clock_gettime_def s0_def now split: prod.split)
  qed
  have A: "events s' = ?E \<and> s' = sched_modifier_releases K mid parm2 ?d \<and>
            is_key_held s' k \<and>
            (k \<notin> set ?mods \<longrightarrow> entries_of s' k = [fresh]) \<and>
            (length ?P + length ?mods \<le> MAX_PENDING_RELEASES \<longrightarrow>
               (\<forall>m\<in>set ?mods. m \<in> key ` set (pending_releases s'))) \<and>
            (parm2 < 2 \<longrightarrow> pending_releases s' = take i ?P @ drop (Suc i) ?P @ [fresh] \<and>
               is_key_held s' k)"
    if new: "25 < time_to_release_ms rt now"
  proof -
    define s1 where "s1 = remove_release (mark_key_released (doom_key_up s0 k) k) i"
    define s2 where "s2 = doom_key_down (for_each_modifier_key_down K s1 parm2) k"
    have s'_eq: "s' = sched_modifier_releases K (sched_key_release s2 k ?d) parm2 ?d"
      using new by (simp add: unf scan s1_def s2_def Let_def)
    have ev: "events s' = ?E"
      by (simp add: s'_eq s2_def s1_def s0_def)
    have p2: "pending_releases s2 = take i ?P @ drop (Suc i) ?P"
      by (simp add: s2_def s1_def s0_def)
    have nk: "k \<notin> key ` set (pending_releases s2)"
      unfolding p2 by (rule set_remove_nth_keys[OF entry(1,3)])
    have len2: "length (pending_releases s2) < 16"
      using entry(1) lens(1) by (simp add: p2 MAX_PENDING_RELEASES_def)
    have c2: "clock s2 (clock_reads s2) = clock s (clock_reads s + 1)"
      by (simp add: s2_def s1_def s0_def)
    have l4: "length (held_keys_bitmap s2) = 4" using lens(2) by (simp add: s2_def s1_def s0_def)
    have pend: "pending_releases (sched_key_release s2 k ?d) = take i ?P @ drop (Suc i) ?P @ [fresh]"
      using sched_key_release_new(1)[OF nk len2, of ?d] by (simp add: p2 c2 fresh)
    have "is_key_held (sched_key_release s2 k ?d) k = is_key_held (mark_key_held s2 k) k"
      by (rule is_key_held_cong) (rule sched_key_release_new(2)[OF nk len2])
    then have hk: "is_key_held (sched_key_release s2 k ?d) k"
      using is_key_held_mark_held[OF l4, of k k] range by simp
    txt \<open>The state after the key's own release has been scheduled, written out.\<close>
    have s2_state: "s2 = (mark_key_released s k)
          \<lparr>clock_reads := clock_reads s + 1, events := ?E,
           pending_releases := take i ?P @ drop (Suc i) ?P\<rparr>"
      by (simp add: s2_def s1_def s0_def for_each_modifier_key_down_state doom_key_down_def
          doom_key_up_def remove_release_def mark_key_released_def Let_def)
    have upd: "update_release (pending_releases s2) k (release_after (clock s2 (clock_reads s2)) ?d) = None"
      using nk by (simp add: update_release_None)
    have bm: "held_keys_bitmap (mark_key_held (mark_key_released s k) k) = held_keys_bitmap s"
      by (rule mark_held_released_bitmap[OF held lens(2)])
    have "sched_key_release s2 k ?d =
            mark_key_held (s2\<lparr>clock_reads := clock_reads s2 + 1,
                              pending_releases := pending_releases s2 @ [fresh]\<rparr>) k"
      using upd len2 c2
      by (simp add: sched_key_release_def clock_gettime_def Let_def MAX_PENDING_RELEASES_def fresh)
    also have "\<dots> = mid"
      using bm range
      by (simp add: s2_state mid_def mark_key_held_def mark_key_released_def Let_def
          MAX_KEY_CODE_def)
    finally have mid_eq: "sched_key_release s2 k ?d = mid" .
    have whole: "s' = sched_modifier_releases K mid parm2 ?d" by (simp only: s'_eq mid_eq)
    have mid_l4: "length (held_keys_bitmap mid) = 4" using lens(2) by (simp add: mid_def)
    have mid_held: "is_key_held mid k" using hk by (simp only: mid_eq)
    have mid_ent: "entries_of mid k = [fresh]"
      using nk by (auto simp: mid_def entries_of_def p2 fresh filter_empty_conv image_iff)
    have mid_len: "length (pending_releases mid) = length ?P"
      using entry(1) by (simp add: mid_def)
    have held': "is_key_held s' k"
      unfolding whole sched_modifier_releases_foldl
      by (rule sched_list_props(2)[OF mid_l4 mid_held])
    have ent': "entries_of s' k = [fresh]" if "k \<notin> set ?mods"
      unfolding whole sched_modifier_releases_foldl
      using sched_list_props(1)[OF that, of ?d mid] mid_ent by simp
    have mods': "\<forall>m\<in>set ?mods. m \<in> key ` set (pending_releases s')"
      if "length ?P + length ?mods \<le> MAX_PENDING_RELEASES"
    proof -
      have "length (pending_releases mid) + length ?mods \<le> 16"
        using that by (simp add: mid_len MAX_PENDING_RELEASES_def)
      from sched_list_props(3)[OF this, of ?d] show ?thesis
        unfolding whole sched_modifier_releases_foldl by blast
    qed
    have none: "pending_releases s' = take i ?P @ drop (Suc i) ?P @ [fresh] \<and> is_key_held s' k"
      if "parm2 < 2"
      using that pend hk by (simp add: s'_eq sched_modifier_releases_none)
    show ?thesis using ev whole held' ent' mods' none by blast
  qed
  have B: "events s' = events s \<and> held_keys_bitmap s' = held_keys_bitmap s \<and>
            pending_releases s' = ?P[i := fresh] \<and>
            s' = s\<lparr>clock_reads := clock_reads s + 2, pending_releases := ?P[i := fresh]\<rparr>"
    if old: "time_to_release_ms rt now \<le> 25"
  proof -
    have s'_eq: "s' = sched_key_release s0 k ?d" using old by (simp add: unf scan Let_def)
    have "sched_key_release s0 k ?d =
           s0\<lparr>clock_reads := clock_reads s0 + 1,
              pending_releases := (pending_releases s0)
               [i := \<lparr>key = k, release_time = release_after (clock s0 (clock_reads s0)) ?d\<rparr>]\<rparr>"
      using entry(1,2) first by (intro sched_key_release_update) (simp_all add: s0_def)
    then show ?thesis by (simp add: s'_eq s0_def fresh)
  qed
  show ?thesis using A B time_to_release_ms_bounds[of rt now] unfolding mid_def by blast
qed

theorem csi_key_held_repeat_witness:
  "(events (csi_key demo_keys (held_arrow_state 54000000) 65 0 0) =
      events (held_arrow_state 54000000) @ [Doom_key_up 173, Doom_key_down 173] \<and>
    is_key_held (csi_key demo_keys (held_arrow_state 54000000) 65 0 0) 173) \<and>
   (events (csi_key demo_keys (held_arrow_state 54000000) 65 1 2) =
      events (held_arrow_state 54000000) @ [Doom_key_up 173, Doom_key_down 182, Doom_key_down 173] \<and>
    is_key_held (csi_key demo_keys (held_arrow_state 54000000) 65 1 2) 173 \<and>
    entries_of (csi_key demo_keys (held_arrow_state 54000000) 65 1 2) 173 =
      [\<lparr>key = 173, release_time = \<lparr>tv_sec = 0, tv_nsec = 134000000\<rparr>\<rparr>] \<and>
    182 \<in> key ` set (pending_releases (csi_key demo_keys (held_arrow_state 54000000) 65 1 2))) \<and>
   (events (csi_key demo_keys (held_arrow_state 60000000) 65 0 0) = events (held_arrow_state 60000000) \<and>
    pending_releases (csi_key demo_keys (held_arrow_state 60000000) 65 0 0) =
      [\<lparr>key = 173, release_time = \<lparr>tv_sec = 0, tv_nsec = 140000000\<rparr>\<rparr>])"
proof -
  have k: "173 = csi_doom_key demo_keys 65 0" "(173::int) \<noteq> 0"
    by (simp_all add: csi_doom_key_def demo_keys_def)
  have k': "173 = csi_doom_key demo_keys 65 1"
    by (simp add: csi_doom_key_def demo_keys_def)
  have d: "csi_delay_ms demo_keys 173 = 80" by (simp add: csi_delay_ms_def demo_keys_def)
  have mk: "modifier_keys demo_keys 0 = []" by (simp add: modifier_keys_def)
  have mk2: "modifier_keys demo_keys 2 = [182]" by (simp add: modifier_keys_def demo_keys_def)
  txt \<open>26 ms before the release: a new keypress, without and with Shift.\<close>
  have P1: "pending_releases (held_arrow_state 54000000) =
              [\<lparr>key = 173, release_time = \<lparr>tv_sec = 0, tv_nsec = 80000000\<rparr>\<rparr>]"
    by code_simp
  have H1: "is_key_held (held_arrow_state 54000000) 173" by code_simp
  have L1: "length (held_keys_bitmap (held_arrow_state 54000000)) = 4" by code_simp
  have C1: "clock (held_arrow_state 54000000) (clock_reads (held_arrow_state 54000000)) =
              \<lparr>tv_sec = 0, tv_nsec = 54000000\<rparr>"
    by code_simp
  have C1': "clock (held_arrow_state 54000000) (Suc (clock_reads (held_arrow_state 54000000))) =
              \<lparr>tv_sec = 0, tv_nsec = 54000000\<rparr>"
    by code_simp
  have e1: "0 < length (pending_releases (held_arrow_state 54000000))"
    "key (pending_releases (held_arrow_state 54000000) ! 0) = 173"
    "\<forall>j<length (pending_releases (held_arrow_state 54000000)).
        j \<noteq> 0 \<longrightarrow> key (pending_releases (held_arrow_state 54000000) ! j) \<noteq> 173"
    "length (pending_releases (held_arrow_state 54000000)) \<le> MAX_PENDING_RELEASES"
    by (simp_all add: P1 MAX_PENDING_RELEASES_def)
  have ms1: "25 < time_to_release_ms (release_time (pending_releases (held_arrow_state 54000000) ! 0))
                (clock (held_arrow_state 54000000) (clock_reads (held_arrow_state 54000000)))"
    by (simp add: P1 C1 time_to_release_ms_def c_div_def)
  have r1: "release_after \<lparr>tv_sec = 0, tv_nsec = 54000000\<rparr> 80 = \<lparr>tv_sec = 0, tv_nsec = 134000000\<rparr>"
    by (simp add: release_after_def)
  note t1 = csi_key_held_repeat[where ?parm2.0 = 0, OF k H1 e1(1,2,3,4) L1 refl refl refl refl,
      THEN conjunct1, rule_format, OF ms1]
  have a1: "events (csi_key demo_keys (held_arrow_state 54000000) 65 0 0) =
      events (held_arrow_state 54000000) @ [Doom_key_up 173, Doom_key_down 173]"
    using t1[THEN conjunct1] by (simp add: mk)
  have a2: "is_key_held (csi_key demo_keys (held_arrow_state 54000000) 65 0 0) 173"
    by (rule t1[THEN conjunct2, THEN conjunct2, THEN conjunct1])
  note t3 = csi_key_held_repeat[where ?parm2.0 = 2, OF k' k(2) H1 e1(1,2,3,4) L1 refl refl refl refl,
      THEN conjunct1, rule_format, OF ms1]
  have b1: "events (csi_key demo_keys (held_arrow_state 54000000) 65 1 2) =
      events (held_arrow_state 54000000) @ [Doom_key_up 173, Doom_key_down 182, Doom_key_down 173]"
    using t3[THEN conjunct1] by (simp add: mk2)
  have b2: "is_key_held (csi_key demo_keys (held_arrow_state 54000000) 65 1 2) 173"
    by (rule t3[THEN conjunct2, THEN conjunct2, THEN conjunct1])
  have b3: "entries_of (csi_key demo_keys (held_arrow_state 54000000) 65 1 2) 173 =
      [\<lparr>key = 173, release_time = \<lparr>tv_sec = 0, tv_nsec = 134000000\<rparr>\<rparr>]"
    using t3[THEN conjunct2, THEN conjunct2, THEN conjunct2, THEN conjunct1]
    by (simp add: mk2 d C1' r1)
  have b4: "182 \<in> key ` set (pending_releases (csi_key demo_keys (held_arrow_state 54000000) 65 1 2))"
    using t3[THEN conjunct2, THEN conjunct2, THEN conjunct2, THEN conjunct2, THEN conjunct1]
    by (simp add: mk2 P1 MAX_PENDING_RELEASES_def)
  txt \<open>20 ms before the release: a repeat.\<close>
  have P2: "pending_releases (held_arrow_state 60000000) =
              [\<lparr>key = 173, release_time = \<lparr>tv_sec = 0, tv_nsec = 80000000\<rparr>\<rparr>]"
    by code_simp
  have H2: "is_key_held (held_arrow_state 60000000) 173" by code_simp
  have L2: "length (held_keys_bitmap (held_arrow_state 60000000)) = 4" by code_simp
  have C2: "clock (held_arrow_state 60000000) (clock_reads (held_arrow_state 60000000)) =
              \<lparr>tv_sec = 0, tv_nsec = 60000000\<rparr>"
    by code_simp
  have C2': "clock (held_arrow_state 60000000) (Suc (clock_reads (held_arrow_state 60000000))) =
              \<lparr>tv_sec = 0, tv_nsec = 60000000\<rparr>"
    by code_simp
  have e2: "0 < length (pending_releases (held_arrow_state 60000000))"
    "key (pending_releases (held_arrow_state 60000000) ! 0) = 173"
    "\<forall>j<length (pending_releases (held_arrow_state 60000000)).
        j \<noteq> 0 \<longrightarrow> key (pending_releases (held_arrow_state 60000000) ! j) \<noteq> 173"
    "length (pending_releases (held_arrow_state 60000000)) \<le> MAX_PENDING_RELEASES"
    by (simp_all add: P2 MAX_PENDING_RELEASES_def)
  have ms2: "time_to_release_ms (release_time (pending_releases (held_arrow_state 60000000) ! 0))
                (clock (held_arrow_state 60000000) (clock_reads (held_arrow_state 60000000))) \<le> 25"
    by (simp add: P2 C2 time_to_release_ms_def c_div_def)
  note t2 = csi_key_held_repeat[where ?parm2.0 = 0, OF k H2 e2(1,2,3,4) L2 refl refl refl refl,
      THEN conjunct2, THEN conjunct1, rule_format, OF ms2]
  have r2: "release_after \<lparr>tv_sec = 0, tv_nsec = 60000000\<rparr> 80 = \<lparr>tv_sec = 0, tv_nsec = 140000000\<rparr>"
    by (simp add: release_after_def)
  have c1: "events (csi_key demo_keys (held_arrow_state 60000000) 65 0 0) = events (held_arrow_state 60000000)"
    by (rule t2[THEN conjunct1])
  have c2: "pending_releases (csi_key demo_keys (held_arrow_state 60000000) 65 0 0) =
      [\<lparr>key = 173, release_time = \<lparr>tv_sec = 0, tv_nsec = 140000000\<rparr>\<rparr>]"
    using t2[THEN conjunct2, THEN conjunct2, THEN conjunct1] by (simp add: d P2 C2' r2)
  show ?thesis using a1 a2 b1 b2 b3 b4 c1 c2 by (intro conjI)
qed

text \<open>
  The claim as stated fails between 25 and 26 ms. Up-arrow is held with its release due at
  80 ms; a second Up-arrow is parsed at 54.5 ms, 25.5 ms before the release, which is more
  than 25 ms: the code computes 25 and sends nothing.
\<close>

theorem csi_key_held_repeat_counterexample:
  "is_key_held (held_arrow_state 54500000) 173 \<and>
   pending_releases (held_arrow_state 54500000) =
     [\<lparr>key = 173, release_time = \<lparr>tv_sec = 0, tv_nsec = 80000000\<rparr>\<rparr>] \<and>
   clock (held_arrow_state 54500000) (clock_reads (held_arrow_state 54500000)) =
     \<lparr>tv_sec = 0, tv_nsec = 54500000\<rparr> \<and>
   ns_until \<lparr>tv_sec = 0, tv_nsec = 80000000\<rparr> \<lparr>tv_sec = 0, tv_nsec = 54500000\<rparr> = 25500000 \<and>
   events (parse_char demo_keys (held_arrow_state 54500000) 65) = events (held_arrow_state 54500000)"
  by code_simp

subsection \<open>The pending list full\<close>

text \<open>
  Claim C4 is about the code when the pending list is full, and there the code breaks it.
  The seventeen letters arrive within one hold window. For the seventeenth, \<open>s\<close> (115),
  \<open>ascii_key\<close> has sent \<open>key_down\<close>, but \<open>sched_key_release\<close> found sixteen entries and
  neither stored a release nor set the bit: the engine holds the key down, its bit is
  clear, it has no entry. When all release times have passed, the poll sends \<open>key_up\<close> for
  the sixteen others (114 among them) and empties the list; key 115 never gets one.
\<close>

theorem held_bitmap_full_list:
  "length (pending_releases full_list_state) = 16 \<and>
   count_list (events full_list_state) (Doom_key_down 115) = 1 \<and>
   count_list (events full_list_state) (Doom_key_up 115) = 0 \<and>
   \<not> is_key_held full_list_state 115 \<and>
   entries_of full_list_state 115 = [] \<and>
   pending_releases (process_pending_releases full_list_state) = [] \<and>
   count_list (events (process_pending_releases full_list_state)) (Doom_key_up 115) = 0 \<and>
   count_list (events (process_pending_releases full_list_state)) (Doom_key_up 114) = 1"
  by code_simp

subsection \<open>The parser state\<close>

lemma parms_simps [simp]:
  "parms (doom_key_down s k) = parms s" "parm_count (doom_key_down s k) = parm_count s"
  "parms (doom_key_up s k) = parms s" "parm_count (doom_key_up s k) = parm_count s"
  "parms (doom_mouse_move s x y) = parms s" "parm_count (doom_mouse_move s x y) = parm_count s"
  "parms (mark_key_held s k) = parms s" "parm_count (mark_key_held s k) = parm_count s"
  "parms (mark_key_released s k) = parms s" "parm_count (mark_key_released s k) = parm_count s"
  "parms (remove_release s i) = parms s" "parm_count (remove_release s i) = parm_count s"
  by (simp_all add: doom_key_down_def doom_key_up_def doom_mouse_move_def mark_key_held_def
        mark_key_released_def remove_release_def Let_def)

lemma sched_key_release_parms [simp]:
  "parms (sched_key_release s k d) = parms s" "parm_count (sched_key_release s k d) = parm_count s"
  by (simp_all add: sched_key_release_def clock_gettime_def Let_def split: option.splits)

lemma sched_modifier_releases_parms [simp]:
  "parms (sched_modifier_releases K s m d) = parms s"
  "parm_count (sched_modifier_releases K s m d) = parm_count s"
  by (simp_all add: sched_modifier_releases_def Let_def)

lemma for_each_modifier_key_down_parms [simp]:
  "parms (for_each_modifier_key_down K s m) = parms s"
  "parm_count (for_each_modifier_key_down K s m) = parm_count s"
  by (simp_all add: for_each_modifier_key_down_def Let_def)

lemma release_loop_parms [simp]:
  "parms (release_loop n now s) = parms s" "parm_count (release_loop n now s) = parm_count s"
  by (induction n arbitrary: s) (simp_all add: Let_def)

lemma process_pending_releases_parms [simp]:
  "parms (process_pending_releases s) = parms s"
  "parm_count (process_pending_releases s) = parm_count s"
  by (simp_all add: process_pending_releases_def clock_gettime_def)

lemma csi_release_scan_parms:
  "parms (snd (csi_release_scan i now k s)) = parms s \<and>
   parm_count (snd (csi_release_scan i now k s)) = parm_count s"
proof (induction i now k s rule: csi_release_scan.induct)
  case (1 i now k s)
  show ?case using 1 by (subst (1 2) csi_release_scan.simps) simp
qed

lemma ascii_key_parms [simp]:
  "parms (ascii_key K s ch) = parms s" "parm_count (ascii_key K s ch) = parm_count s"
  by (simp_all add: ascii_key_def Let_def)

lemma ss3_key_parms [simp]:
  "parms (ss3_key K s ch) = parms s" "parm_count (ss3_key K s ch) = parm_count s"
  by (simp_all add: ss3_key_def Let_def)

lemma csi_key_parms [simp]:
  "parms (csi_key K s ch p1 p2) = parms s" "parm_count (csi_key K s ch p1 p2) = parm_count s"
proof -
  obtain b t where r: "csi_release_scan 0 (clock s (clock_reads s)) (csi_doom_key K ch p1)
          (s\<lparr>clock_reads := Suc (clock_reads s)\<rparr>) = (b, t)"
    by (cases "csi_release_scan 0 (clock s (clock_reads s)) (csi_doom_key K ch p1)
          (s\<lparr>clock_reads := Suc (clock_reads s)\<rparr>)") auto
  have t: "parms t = parms s" "parm_count t = parm_count s"
    using csi_release_scan_parms[of 0 "clock s (clock_reads s)" "csi_doom_key K ch p1"
          "s\<lparr>clock_reads := Suc (clock_reads s)\<rparr>"] r by simp_all
  show "parms (csi_key K s ch p1 p2) = parms s" "parm_count (csi_key K s ch p1 p2) = parm_count s"
    by (simp_all add: csi_key_def Let_def clock_gettime_def r t)
qed

lemma parse_mouse_sgr_parms [simp]:
  "parms (parse_mouse_sgr K s c) = parms s" "parm_count (parse_mouse_sgr K s c) = parm_count s"
  by (simp_all add: parse_mouse_sgr_def Let_def)

lemma push_parm_bounds:
  "parm_count s \<le> MAX_PARMS \<Longrightarrow> parm_count (push_parm s) \<le> MAX_PARMS"
  "length (parms (push_parm s)) = length (parms s)"
  by (simp_all add: push_parm_def)

lemma parse_char_parm_bounds:
  assumes "parm_count s \<le> MAX_PARMS" "length (parms s) = MAX_PARMS"
  shows "parm_count (parse_char K s ch) \<le> MAX_PARMS \<and> length (parms (parse_char K s ch)) = MAX_PARMS"
  using assms push_parm_bounds[of s]
  by (simp add: parse_char_def Let_def device_attributes_report_def cell_size_report_def
        position_report_def)

lemma feed_parm_bounds:
  assumes "parm_count s \<le> MAX_PARMS" "length (parms s) = MAX_PARMS"
  shows "parm_count (feed K s bytes) \<le> MAX_PARMS \<and> length (parms (feed K s bytes)) = MAX_PARMS"
  using assms
proof (induction bytes arbitrary: s)
  case Nil
  then show ?case by simp
next
  case (Cons b bytes)
  have "parm_count (input_step K s b) \<le> MAX_PARMS \<and> length (parms (input_step K s b)) = MAX_PARMS"
    unfolding input_step_def using Cons.prems by (intro parse_char_parm_bounds) simp_all
  then show ?case using Cons.IH by simp
qed




subsection \<open>The parser state stays intact\<close>

lemma c_int_range: "int_range (c_int x)"
proof -
  have "0 \<le> (x + 2147483648) mod 4294967296" "(x + 2147483648) mod 4294967296 < 4294967296"
    by simp_all
  then show ?thesis unfolding int_range_def c_int_def by linarith
qed

lemma c_int_id: "- 2147483648 \<le> x \<Longrightarrow> x \<le> 2147483647 \<Longrightarrow> c_int x = x"
  by (simp add: c_int_def)

lemma input_ok_updates [simp]:
  "input_ok (s\<lparr>events := ev\<rparr>) = input_ok s"
  "input_ok (s\<lparr>clock_reads := n\<rparr>) = input_ok s"
  "input_ok (s\<lparr>state := st\<rparr>) = input_ok s"
  "input_ok (s\<lparr>exit_requested := b\<rparr>) = input_ok s"
  "input_ok (s\<lparr>parm_prefix := c\<rparr>) = input_ok s"
  "input_ok (s\<lparr>device_attributes := da\<rparr>) = input_ok s"
  "input_ok (s\<lparr>da_count := dc\<rparr>) = input_ok s"
  "input_ok (s\<lparr>cell_size := cs\<rparr>) = input_ok s"
  "input_ok (s\<lparr>has_cell_size := b\<rparr>) = input_ok s"
  "input_ok (s\<lparr>cursor_pos := cp\<rparr>) = input_ok s"
  "input_ok (s\<lparr>has_cursor_pos := b\<rparr>) = input_ok s"
  by (simp_all add: input_ok_def)

lemma basic_ok [simp]:
  "input_ok (doom_key_down s k) = input_ok s"
  "input_ok (doom_key_up s k) = input_ok s"
  "input_ok (doom_mouse_move s x y) = input_ok s"
  "input_ok (mark_key_held s k) = input_ok s"
  "input_ok (mark_key_released s k) = input_ok s"
  "input_ok (device_attributes_report s) = input_ok s"
  "input_ok (cell_size_report s h w) = input_ok s"
  "input_ok (position_report s r c) = input_ok s"
  by (simp_all add: doom_key_down_def doom_key_up_def doom_mouse_move_def mark_key_held_def
      mark_key_released_def device_attributes_report_def cell_size_report_def
      position_report_def Let_def input_ok_def)

lemma pending_ok:
  "input_ok s \<Longrightarrow> length ps \<le> 16 \<Longrightarrow> input_ok (s\<lparr>pending_releases := ps\<rparr>)"
  by (simp add: input_ok_def MAX_PENDING_RELEASES_def)

lemma input_ok_pending: "input_ok s \<Longrightarrow> length (pending_releases s) \<le> 16"
  by (simp add: input_ok_def MAX_PENDING_RELEASES_def)

lemma remove_release_ok [simp]: "input_ok s \<Longrightarrow> input_ok (remove_release s i)"
  unfolding remove_release_def
  by (rule pending_ok) (use input_ok_pending[of s] in auto)

lemma sched_key_release_ok [simp]:
  assumes "input_ok s"
  shows "input_ok (sched_key_release s k d)"
proof -
  let ?t = "release_after (clock s (clock_reads s)) d"
  show ?thesis
  proof (cases "update_release (pending_releases s) k ?t")
    case None
    then show ?thesis
      using assms input_ok_pending[OF assms]
      by (auto simp: sched_key_release_def clock_gettime_def Let_def MAX_PENDING_RELEASES_def
          intro!: pending_ok)
  next
    case (Some ps)
    have "length (map key ps) = length (map key (pending_releases s))"
      using update_release_entries[OF Some] by simp
    then have "length ps \<le> 16" using input_ok_pending[OF assms] by simp
    then show ?thesis
      using assms Some
      by (auto simp: sched_key_release_def clock_gettime_def Let_def intro!: pending_ok)
  qed
qed

lemma sched_modifier_releases_ok [simp]:
  "input_ok s \<Longrightarrow> input_ok (sched_modifier_releases K s m d)"
  by (simp add: sched_modifier_releases_def Let_def)

lemma for_each_modifier_key_down_ok [simp]:
  "input_ok (for_each_modifier_key_down K s m) = input_ok s"
  by (simp add: for_each_modifier_key_down_state)

lemma release_loop_ok [simp]: "input_ok s \<Longrightarrow> input_ok (release_loop n now s)"
  by (induction n arbitrary: s) (simp_all add: Let_def)

lemma process_pending_releases_ok [simp]:
  "input_ok s \<Longrightarrow> input_ok (process_pending_releases s)"
  by (simp add: process_pending_releases_def clock_gettime_def)

lemma csi_release_scan_ok: "input_ok s \<Longrightarrow> input_ok (snd (csi_release_scan i now k s))"
proof (induction i now k s rule: csi_release_scan.induct)
  case (1 i now k s)
  show ?case using 1 by (subst csi_release_scan.simps) simp
qed

lemma ascii_key_ok [simp]: "input_ok s \<Longrightarrow> input_ok (ascii_key K s ch)"
  by (simp add: ascii_key_def Let_def)

lemma ss3_key_ok [simp]: "input_ok s \<Longrightarrow> input_ok (ss3_key K s ch)"
  by (simp add: ss3_key_def Let_def)

lemma csi_key_ok [simp]:
  assumes "input_ok s"
  shows "input_ok (csi_key K s ch p1 p2)"
proof -
  obtain b t where r: "csi_release_scan 0 (clock s (clock_reads s)) (csi_doom_key K ch p1)
          (s\<lparr>clock_reads := Suc (clock_reads s)\<rparr>) = (b, t)"
    by (cases "csi_release_scan 0 (clock s (clock_reads s)) (csi_doom_key K ch p1)
          (s\<lparr>clock_reads := Suc (clock_reads s)\<rparr>)") auto
  have t: "input_ok t"
    using csi_release_scan_ok[of "s\<lparr>clock_reads := Suc (clock_reads s)\<rparr>" 0
        "clock s (clock_reads s)" "csi_doom_key K ch p1"] r assms by simp
  show ?thesis using assms t by (simp add: csi_key_def Let_def clock_gettime_def r)
qed

lemma mouse_ok:
  "input_ok s \<Longrightarrow> length (buttons m) = 3 \<Longrightarrow> int_range (last_x m) \<Longrightarrow> int_range (last_y m) \<Longrightarrow>
   input_ok (s\<lparr>mouse := m\<rparr>)"
  by (simp add: input_ok_def)

lemma input_ok_parms:
  assumes "input_ok s" "i < 32"
  shows "int_range (parms s ! i)"
proof -
  have "list_all int_range (parms s)" "i < length (parms s)"
    using assms by (simp_all add: input_ok_def MAX_PARMS_def)
  then show ?thesis by (simp add: list_all_length)
qed

lemma input_ok_mouse:
  "input_ok s \<Longrightarrow> length (buttons (mouse s)) = 3 \<and> int_range (last_x (mouse s)) \<and>
     int_range (last_y (mouse s))"
  by (simp add: input_ok_def)

lemma parse_mouse_sgr_ok [simp]:
  assumes ok: "input_ok s"
  shows "input_ok (parse_mouse_sgr K s c)"
proof -
  note m = input_ok_mouse[OF ok]
  have p: "int_range (parms s ! 1)" "int_range (parms s ! 2)"
    using input_ok_parms[OF ok, of 1] input_ok_parms[OF ok, of 2] by simp_all
  define dx where "dx = clamp_delta (c_int (parms s ! 1 - last_x (mouse s))) * MOUSE_SENSITIVITY"
  define dy where "dy = clamp_delta (c_int (parms s ! 2 - last_y (mouse s))) * MOUSE_SENSITIVITY"
  define s1 where "s1 = (if dx \<noteq> 0 \<or> dy \<noteq> 0
                         then (let t = doom_mouse_move s dx dy
                               in t\<lparr>mouse := (mouse t)\<lparr>last_x := parms s ! 1, last_y := parms s ! 2\<rparr>\<rparr>)
                         else s)"
  have ok1: "input_ok s1"
    using ok m p by (auto simp: s1_def Let_def doom_mouse_move_def intro!: mouse_ok)
  note m1 = input_ok_mouse[OF ok1]
  have okb: "input_ok (s1\<lparr>mouse := (mouse s1)\<lparr>buttons := (buttons (mouse s1))[i := b]\<rparr>\<rparr>)" for i b
    using ok1 m1 by (intro mouse_ok) simp_all
  have first: "input_ok (s\<lparr>mouse := (mouse s)\<lparr>last_x := parms s ! 1, last_y := parms s ! 2,
                                            tracking := True\<rparr>\<rparr>)"
    using ok m p by (intro mouse_ok) simp_all
  show ?thesis
    unfolding parse_mouse_sgr_def Let_def dx_def[symmetric] dy_def[symmetric]
      s1_def[unfolded Let_def, symmetric]
    using ok ok1 okb first by simp
qed






text \<open>A digit run past the range of an \<open>int\<close> wraps around: the report
  \<open>ESC [ < 0 ; 4294967306 ;\<close> stores column 10.\<close>

lemma digit_run_wraps:
  "parms (feed demo_keys (input_create (ms_clock 1) True)
     [27, 91, 60, 48, 59, 52, 50, 57, 52, 57, 54, 55, 51, 48, 54, 59]) ! 1 = 10"
  by code_simp




subsection \<open>SGR mouse reports\<close>

lemma clamp_delta_zero: "clamp_delta d = 0 \<longleftrightarrow> d = 0"
  by (simp add: clamp_delta_def MAX_DELTA_CLAMP_def)

lemma clamp_delta_abs: "\<bar>clamp_delta d\<bar> \<le> 100"
  unfolding clamp_delta_def MAX_DELTA_CLAMP_def by auto

text \<open>
  Claim C8 (amended). \<open>parse_mouse_sgr\<close> handles a report with parameters \<open>cb\<close>, \<open>cx\<close>,
  \<open>cy\<close> as follows.
  \<^item> A report with fewer than three parameters, or a wheel report (bit 6 of \<open>cb\<close>), changes
    nothing: no call, no reference position.
  \<^item> Any other report that arrives while tracking is off only stores \<open>(cx, cy)\<close> as the
    reference position and turns tracking on; it sends nothing.
  \<^item> Any other report that arrives while tracking is on computes per axis the difference
    to the reference position as an \<open>int\<close> (\<open>ex\<close>, \<open>ey\<close>: the exact difference whenever
    that fits an \<open>int\<close>, wrapped around otherwise), and from it the delta: 1000 when the
    difference is more than 100 cells, -1000 when it is less than -100, ten times the
    difference otherwise. If one of the two deltas is not zero it sends exactly one
    \<open>mouse_move\<close> with them, before any button \<open>key_down\<close>, and the reference position
    becomes \<open>(cx, cy)\<close>; if both are zero it sends no \<open>mouse_move\<close> and keeps the reference
    position.
\<close>

theorem parse_mouse_sgr_motion:
  assumes cb: "cb = parms s ! 0" and cx: "cx = parms s ! 1" and cy: "cy = parms s ! 2"
    and ex: "ex = (cx - last_x (mouse s) + 2147483648) mod 4294967296 - 2147483648"
    and ey: "ey = (cy - last_y (mouse s) + 2147483648) mod 4294967296 - 2147483648"
    and dx: "dx = (if ex > 100 then 1000 else if ex < - 100 then - 1000 else 10 * ex)"
    and dy: "dy = (if ey > 100 then 1000 else if ey < - 100 then - 1000 else 10 * ey)"
    and s': "s' = parse_mouse_sgr K s final_char"
  shows "(parm_count s < 3 \<or> cb AND 64 \<noteq> 0 \<longrightarrow> s' = s) \<and>
         (3 \<le> parm_count s \<and> cb AND 64 = 0 \<and> \<not> tracking (mouse s) \<longrightarrow>
            s' = s\<lparr>mouse := (mouse s)\<lparr>last_x := cx, last_y := cy, tracking := True\<rparr>\<rparr>) \<and>
         (3 \<le> parm_count s \<and> cb AND 64 = 0 \<and> tracking (mouse s) \<longrightarrow>
            (\<exists>ks. events s' =
                     events s @ (if dx \<noteq> 0 \<or> dy \<noteq> 0 then [Doom_mouse_move dx dy] else []) @
                     map Doom_key_down ks) \<and>
            filter is_mouse_move (events s') =
              filter is_mouse_move (events s) @
              (if dx \<noteq> 0 \<or> dy \<noteq> 0 then [Doom_mouse_move dx dy] else []) \<and>
            last_x (mouse s') = (if dx \<noteq> 0 \<or> dy \<noteq> 0 then cx else last_x (mouse s)) \<and>
            last_y (mouse s') = (if dx \<noteq> 0 \<or> dy \<noteq> 0 then cy else last_y (mouse s)) \<and>
            tracking (mouse s')) \<and>
         (- 2147483648 \<le> cx - last_x (mouse s) \<and> cx - last_x (mouse s) \<le> 2147483647 \<longrightarrow>
            ex = cx - last_x (mouse s)) \<and>
         (- 2147483648 \<le> cy - last_y (mouse s) \<and> cy - last_y (mouse s) \<le> 2147483647 \<longrightarrow>
            ey = cy - last_y (mouse s)) \<and>
         (dx = 0 \<longleftrightarrow> ex = 0) \<and> (dy = 0 \<longleftrightarrow> ey = 0) \<and>
         \<bar>dx\<bar> \<le> 1000 \<and> \<bar>dy\<bar> \<le> 1000"
proof -
  have exc: "ex = c_int (cx - last_x (mouse s))" and eyc: "ey = c_int (cy - last_y (mouse s))"
    by (simp_all add: ex ey c_int_def)
  have dxc: "dx = clamp_delta (c_int (cx - last_x (mouse s))) * MOUSE_SENSITIVITY"
    by (simp add: dx exc clamp_delta_def MAX_DELTA_CLAMP_def MOUSE_SENSITIVITY_def)
  have dyc: "dy = clamp_delta (c_int (cy - last_y (mouse s))) * MOUSE_SENSITIVITY"
    by (simp add: dy eyc clamp_delta_def MAX_DELTA_CLAMP_def MOUSE_SENSITIVITY_def)
  have ignore: "s' = s" if "parm_count s < 3 \<or> cb AND 64 \<noteq> 0"
    using that by (cases "parm_count s < 3") (simp_all add: s' parse_mouse_sgr_def Let_def cb)
  have first: "s' = s\<lparr>mouse := (mouse s)\<lparr>last_x := cx, last_y := cy, tracking := True\<rparr>\<rparr>"
    if "3 \<le> parm_count s \<and> cb AND 64 = 0 \<and> \<not> tracking (mouse s)"
    using that by (simp add: s' parse_mouse_sgr_def Let_def cb cx cy)
  have later: "(\<exists>ks. events s' =
                     events s @ (if dx \<noteq> 0 \<or> dy \<noteq> 0 then [Doom_mouse_move dx dy] else []) @
                     map Doom_key_down ks) \<and>
            filter is_mouse_move (events s') =
              filter is_mouse_move (events s) @
              (if dx \<noteq> 0 \<or> dy \<noteq> 0 then [Doom_mouse_move dx dy] else []) \<and>
            last_x (mouse s') = (if dx \<noteq> 0 \<or> dy \<noteq> 0 then cx else last_x (mouse s)) \<and>
            last_y (mouse s') = (if dx \<noteq> 0 \<or> dy \<noteq> 0 then cy else last_y (mouse s)) \<and>
            tracking (mouse s')"
    if t: "3 \<le> parm_count s \<and> cb AND 64 = 0 \<and> tracking (mouse s)"
  proof -
    define s1 where "s1 = (if dx \<noteq> 0 \<or> dy \<noteq> 0
                         then (let t = doom_mouse_move s dx dy
                               in t\<lparr>mouse := (mouse t)\<lparr>last_x := cx, last_y := cy\<rparr>\<rparr>)
                         else s)"
    have e1: "events s1 = events s @ (if dx \<noteq> 0 \<or> dy \<noteq> 0 then [Doom_mouse_move dx dy] else [])"
      by (simp add: s1_def Let_def doom_mouse_move_def)
    have m1: "last_x (mouse s1) = (if dx \<noteq> 0 \<or> dy \<noteq> 0 then cx else last_x (mouse s))"
      "last_y (mouse s1) = (if dx \<noteq> 0 \<or> dy \<noteq> 0 then cy else last_y (mouse s))"
      "tracking (mouse s1)"
      using t by (simp_all add: s1_def Let_def doom_mouse_move_def)
    have cases: "(events s' = events s1 \<or> (\<exists>k. events s' = events s1 @ [Doom_key_down k])) \<and>
          last_x (mouse s') = last_x (mouse s1) \<and> last_y (mouse s') = last_y (mouse s1) \<and>
          tracking (mouse s') = tracking (mouse s1)"
      using t unfolding s' parse_mouse_sgr_def Let_def cb[symmetric] cx[symmetric] cy[symmetric]
        dxc[symmetric] dyc[symmetric] s1_def[unfolded Let_def, symmetric]
      by (simp add: not_less)
    from cases have "\<exists>ks. events s' = events s1 @ map Doom_key_down ks"
    proof (elim conjE disjE exE)
      assume "events s' = events s1"
      then have "events s' = events s1 @ map Doom_key_down []" by simp
      then show ?thesis by blast
    next
      fix k assume "events s' = events s1 @ [Doom_key_down k]"
      then have "events s' = events s1 @ map Doom_key_down [k]" by simp
      then show ?thesis by blast
    qed
    then obtain ks where ks: "events s' = events s1 @ map Doom_key_down ks" by blast
    have nomove: "filter is_mouse_move (map Doom_key_down ks) = []" by (induction ks) simp_all
    have f: "filter is_mouse_move (events s') =
              filter is_mouse_move (events s) @
              (if dx \<noteq> 0 \<or> dy \<noteq> 0 then [Doom_mouse_move dx dy] else [])"
      by (simp add: ks e1 nomove)
    have ex: "\<exists>ks. events s' =
                     events s @ (if dx \<noteq> 0 \<or> dy \<noteq> 0 then [Doom_mouse_move dx dy] else []) @
                     map Doom_key_down ks"
      using ks e1 by auto
    show ?thesis using ex f cases m1 by simp
  qed
  have idx: "ex = cx - last_x (mouse s)"
    if "- 2147483648 \<le> cx - last_x (mouse s) \<and> cx - last_x (mouse s) \<le> 2147483647"
    using that by (simp add: exc c_int_id)
  have idy: "ey = cy - last_y (mouse s)"
    if "- 2147483648 \<le> cy - last_y (mouse s) \<and> cy - last_y (mouse s) \<le> 2147483647"
    using that by (simp add: eyc c_int_id)
  have z: "(dx = 0 \<longleftrightarrow> ex = 0)" "(dy = 0 \<longleftrightarrow> ey = 0)"
    by (simp_all add: dx dy)
  have bnd: "\<bar>dx\<bar> \<le> 1000" "\<bar>dy\<bar> \<le> 1000"
    unfolding dx dy by auto
  show ?thesis using ignore first later idx idy z bnd by blast
qed

theorem parse_mouse_sgr_motion_witness:
  "(events (parse_mouse_sgr demo_keys (sgr_state 35 12 20 mouse_fresh) 77) = [] \<and>
    tracking (mouse (parse_mouse_sgr demo_keys (sgr_state 35 12 20 mouse_fresh) 77)) \<and>
    last_x (mouse (parse_mouse_sgr demo_keys (sgr_state 35 12 20 mouse_fresh) 77)) = 12) \<and>
   (filter is_mouse_move (events (parse_mouse_sgr demo_keys (sgr_state 35 12 20 mouse_at_10_20) 77)) =
      [Doom_mouse_move 20 0] \<and>
    last_x (mouse (parse_mouse_sgr demo_keys (sgr_state 35 12 20 mouse_at_10_20) 77)) = 12) \<and>
   (filter is_mouse_move (events (parse_mouse_sgr demo_keys (sgr_state 0 500 20 mouse_at_10_20) 77)) =
      [Doom_mouse_move 1000 0] \<and>
    last_x (mouse (parse_mouse_sgr demo_keys (sgr_state 0 500 20 mouse_at_10_20) 77)) = 500) \<and>
   (filter is_mouse_move (events (parse_mouse_sgr demo_keys (sgr_state 35 10 300 mouse_at_500_400) 77)) =
      [Doom_mouse_move (- 1000) (- 1000)] \<and>
    last_x (mouse (parse_mouse_sgr demo_keys (sgr_state 35 10 300 mouse_at_500_400) 77)) = 10) \<and>
   (filter is_mouse_move (events (parse_mouse_sgr demo_keys (sgr_state 35 10 20 mouse_at_10_20) 77)) = [] \<and>
    last_x (mouse (parse_mouse_sgr demo_keys (sgr_state 35 10 20 mouse_at_10_20) 77)) = 10) \<and>
   parse_mouse_sgr demo_keys (sgr_state 64 15 20 mouse_at_10_20) 77 = sgr_state 64 15 20 mouse_at_10_20"
proof -
  have p: "parm_count (sgr_state cb cx cy m) = 3" "parms (sgr_state cb cx cy m) ! 0 = cb"
    "parms (sgr_state cb cx cy m) ! 1 = cx" "parms (sgr_state cb cx cy m) ! Suc 0 = cx"
    "parms (sgr_state cb cx cy m) ! 2 = cy"
    "mouse (sgr_state cb cx cy m) = m" "events (sgr_state cb cx cy m) = []" for cb cx cy m
    by (simp_all add: sgr_state_def input_create_def)
  note a = parse_mouse_sgr_motion[OF refl refl refl refl refl refl refl refl,
      of "sgr_state 35 12 20 mouse_fresh" demo_keys 77, THEN conjunct2, THEN conjunct1]
  have a': "parse_mouse_sgr demo_keys (sgr_state 35 12 20 mouse_fresh) 77 =
        (sgr_state 35 12 20 mouse_fresh)\<lparr>mouse := mouse_fresh\<lparr>last_x := 12, last_y := 20, tracking := True\<rparr>\<rparr>"
    using a by (simp add: p mouse_fresh_def)
  note b = parse_mouse_sgr_motion[OF refl refl refl refl refl refl refl refl,
      of "sgr_state 35 12 20 mouse_at_10_20" demo_keys 77, THEN conjunct2, THEN conjunct2, THEN conjunct1]
  have b': "filter is_mouse_move (events (parse_mouse_sgr demo_keys (sgr_state 35 12 20 mouse_at_10_20) 77)) =
      [Doom_mouse_move 20 0] \<and>
    last_x (mouse (parse_mouse_sgr demo_keys (sgr_state 35 12 20 mouse_at_10_20) 77)) = 12"
    using b by (simp add: p mouse_at_10_20_def)
  note c = parse_mouse_sgr_motion[OF refl refl refl refl refl refl refl refl,
      of "sgr_state 0 500 20 mouse_at_10_20" demo_keys 77, THEN conjunct2, THEN conjunct2, THEN conjunct1]
  have c': "filter is_mouse_move (events (parse_mouse_sgr demo_keys (sgr_state 0 500 20 mouse_at_10_20) 77)) =
      [Doom_mouse_move 1000 0] \<and>
    last_x (mouse (parse_mouse_sgr demo_keys (sgr_state 0 500 20 mouse_at_10_20) 77)) = 500"
    using c by (simp add: p mouse_at_10_20_def)
  note n = parse_mouse_sgr_motion[OF refl refl refl refl refl refl refl refl,
      of "sgr_state 35 10 300 mouse_at_500_400" demo_keys 77, THEN conjunct2, THEN conjunct2, THEN conjunct1]
  have n': "filter is_mouse_move (events (parse_mouse_sgr demo_keys (sgr_state 35 10 300 mouse_at_500_400) 77)) =
      [Doom_mouse_move (- 1000) (- 1000)] \<and>
    last_x (mouse (parse_mouse_sgr demo_keys (sgr_state 35 10 300 mouse_at_500_400) 77)) = 10"
    using n by (simp add: p mouse_at_500_400_def)
  note z = parse_mouse_sgr_motion[OF refl refl refl refl refl refl refl refl,
      of "sgr_state 35 10 20 mouse_at_10_20" demo_keys 77, THEN conjunct2, THEN conjunct2, THEN conjunct1]
  have z': "filter is_mouse_move (events (parse_mouse_sgr demo_keys (sgr_state 35 10 20 mouse_at_10_20) 77)) = [] \<and>
    last_x (mouse (parse_mouse_sgr demo_keys (sgr_state 35 10 20 mouse_at_10_20) 77)) = 10"
    using z by (simp add: p mouse_at_10_20_def)
  note d = parse_mouse_sgr_motion[OF refl refl refl refl refl refl refl refl,
      of "sgr_state 64 15 20 mouse_at_10_20" demo_keys 77, THEN conjunct1]
  have d': "parse_mouse_sgr demo_keys (sgr_state 64 15 20 mouse_at_10_20) 77 = sgr_state 64 15 20 mouse_at_10_20"
    using d by (simp add: p)
  show ?thesis using a' b' c' n' z' d' by (simp add: p mouse_fresh_def)
qed

text \<open>The claim as stated, for every subsequent report, fails for wheel reports: after
  the reference position \<open>(10, 20)\<close> is established, a wheel report at column 15 sends no
  \<open>mouse_move\<close> and leaves the reference column at 10, where a motion report does send
  one.\<close>

theorem parse_mouse_sgr_motion_counterexample:
  "tracking (mouse (feed demo_keys (input_create (ms_clock 1) True) sgr_press_10_20)) \<and>
   last_x (mouse (feed demo_keys (input_create (ms_clock 1) True) sgr_press_10_20)) = 10 \<and>
   events (feed demo_keys (input_create (ms_clock 1) True) (sgr_press_10_20 @ sgr_wheel_15_20)) = [] \<and>
   last_x (mouse (feed demo_keys (input_create (ms_clock 1) True)
      (sgr_press_10_20 @ sgr_wheel_15_20))) = 10 \<and>
   events (feed demo_keys (input_create (ms_clock 1) True) (sgr_press_10_20 @ sgr_motion_12_20)) =
     [Doom_mouse_move 20 0]"
  by code_simp

section \<open>Proofs: the protocol encoder\<close>

subsection \<open>Writes into a buffer\<close>

lemma memcpy_Some:
  assumes "memcpy mem off bytes = Some mem'"
  shows "length mem' = length mem" and "take (off + length bytes) mem' = take off mem @ bytes"
    and "take off mem' = take off mem" and "off + length bytes \<le> length mem"
  using assms by (auto simp: memcpy_def split: if_splits)

lemma memcpy_fits: "off + length bytes \<le> length mem \<Longrightarrow> \<exists>mem'. memcpy mem off bytes = Some mem'"
  by (simp add: memcpy_def)

lemma memcpy_None: "memcpy mem off bytes = None \<longleftrightarrow> length mem < off + length bytes"
  by (auto simp: memcpy_def)

lemma snprintf_within:
  assumes "off + n \<le> length mem"
  shows "\<exists>mem'. snprintf mem off n str = Some (mem', int (length str)) \<and>
           length mem' = length mem \<and> take off mem' = take off mem \<and>
           (length str < n \<longrightarrow> take (off + length str) mem' = take off mem @ str)"
proof (cases "n = 0")
  case True
  then show ?thesis by (simp add: snprintf_def)
next
  case False
  define bytes where "bytes = take (n - 1) str @ [CHR 0x00]"
  have lb: "length bytes \<le> n" using False by (simp add: bytes_def)
  then have "off + length bytes \<le> length mem" using assms by simp
  then obtain mem' where m: "memcpy mem off bytes = Some mem'" using memcpy_fits by blast
  note p = memcpy_Some[OF m]
  have "take (off + length str) mem' = take off mem @ str" if "length str < n"
  proof -
    have b: "bytes = str @ [CHR 0x00]" using that by (simp add: bytes_def)
    have "take (off + length str) mem' = take (off + length str) (take (off + length bytes) mem')"
      by (simp add: b min_def)
    also have "\<dots> = take (off + length str) (take off mem @ bytes)" by (simp only: p(2))
    also have "\<dots> = take off mem @ str" using p(4) by (simp add: b)
    finally show ?thesis .
  qed
  then show ?thesis using m p False by (simp add: snprintf_def bytes_def)
qed

lemma size_sub_le: "b \<le> a \<Longrightarrow> size_sub a b = a - b"
  by (simp add: size_sub_def)

subsection \<open>Cutting the payload\<close>

lemma split_chunks_Nil [simp]: "split_chunks n [] = []"
  by (subst split_chunks.simps) simp

lemma split_chunks_Cons:
  "0 < n \<Longrightarrow> xs \<noteq> [] \<Longrightarrow> split_chunks n xs = take n xs # split_chunks n (drop n xs)"
  by (subst split_chunks.simps) simp

lemma split_chunks_empty_iff: "0 < n \<Longrightarrow> split_chunks n xs = [] \<longleftrightarrow> xs = []"
  by (subst split_chunks.simps) simp

lemma concat_split_chunks: "0 < n \<Longrightarrow> concat (split_chunks n xs) = xs"
proof (induction n xs rule: split_chunks.induct)
  case (1 n xs)
  show ?case
  proof (cases "xs = []")
    case True
    then show ?thesis by simp
  next
    case False
    then show ?thesis using 1 by (simp add: split_chunks_Cons)
  qed
qed

lemma split_chunks_lengths:
  "0 < n \<Longrightarrow> map length (split_chunks n xs) =
     replicate (length xs div n) n @ (if length xs mod n = 0 then [] else [length xs mod n])"
proof (induction n xs rule: split_chunks.induct)
  case (1 n xs)
  show ?case
  proof (cases "xs = []")
    case True
    then show ?thesis by simp
  next
    case False
    show ?thesis
    proof (cases "length xs < n")
      case True
      then have "drop n xs = []" by simp
      then have "split_chunks n xs = [xs]" using True False 1(2) by (simp add: split_chunks_Cons)
      then show ?thesis using True False by simp
    next
      case ge: False
      then have ln: "n \<le> length xs" by simp
      have d: "(length xs - n) div n = length xs div n - 1" "(length xs - n) mod n = length xs mod n"
        using ln 1(2) le_div_geq[of n "length xs"] le_mod_geq[of n "length xs"] by simp_all
      have pos: "0 < length xs div n" using ln 1(2) by (simp add: div_greater_zero_iff)
      have ih: "map length (split_chunks n (drop n xs)) =
          replicate (length xs div n - 1) n @ (if length xs mod n = 0 then [] else [length xs mod n])"
        using 1(1)[OF _ 1(2)] False 1(2) d by simp
      have "replicate (length xs div n) n = n # replicate (length xs div n - 1) n"
        using pos by (cases "length xs div n") simp_all
      then show ?thesis using False 1(2) ln ih by (simp add: split_chunks_Cons min_def)
    qed
  qed
qed


subsection \<open>The chunk loop\<close>

lemma chunk_loop_result:
  assumes "length buf = protocol_buffer_size r" "off \<le> protocol_buffer_size r"
    "n \<le> length (encoded_buffer r)"
  shows "case chunk_loop r n p buf off of
           Continue buf' off' \<Rightarrow>
             length buf' = length buf \<and> off' \<le> protocol_buffer_size r \<and>
             take off' buf' =
               take off buf @
               wrap_chunks r (p = 0) (split_chunks chunk_size (take (n - p) (drop p (encoded_buffer r))))
         | Abort e buf' \<Rightarrow>
             length buf' = length buf \<and>
             protocol_buffer_size r \<le>
               off + length (wrap_chunks r (p = 0)
                        (split_chunks chunk_size (take (n - p) (drop p (encoded_buffer r)))))
         | Out_of_bounds \<Rightarrow> False"
  using assms(1,2)
proof (induction "n - p" arbitrary: p buf off rule: less_induct)
  case less
  let ?size = "protocol_buffer_size r"
  let ?E = "encoded_buffer r"
  show ?case
  proof (cases "p < n")
    case False
    then show ?thesis using less.prems by (subst chunk_loop.simps) simp
  next
    case True
    define more where "more = (p + chunk_size < n)"
    define this where "this = (if more then chunk_size else n - p)"
    define rem where "rem = ?size - off"
    define hdr where "hdr = chunk_header r (p = 0) more"
    define payload where "payload = take this (drop p ?E)"
    define rest where "rest = take (n - p) (drop p ?E)"
    have this_pos: "0 < this" "this \<le> n - p" using True by (auto simp: this_def more_def chunk_size_def)
    have lp: "length payload = this" using this_pos assms(3) True by (simp add: payload_def)
    have lrest: "length rest = n - p" using assms(3) by (simp add: rest_def)
    have rest_ne: "rest \<noteq> []" using lrest True by auto
    have pay: "take chunk_size rest = payload"
    proof (cases more)
      case True
      then have "chunk_size \<le> n - p" by (simp add: more_def)
      then show ?thesis using True by (simp add: rest_def payload_def this_def min_def)
    next
      case False
      then have "n - p \<le> chunk_size" by (simp add: more_def)
      then show ?thesis using False lrest by (simp add: rest_def payload_def this_def)
    qed
    have dr: "drop chunk_size rest = take (n - (p + this)) (drop (p + this) ?E)"
    proof (cases more)
      case True
      then show ?thesis by (simp add: rest_def this_def drop_take add.commute)
    next
      case False
      then have "n - p \<le> chunk_size" by (simp add: more_def)
      then show ?thesis using False lrest by (simp add: this_def)
    qed
    have more_iff: "more \<longleftrightarrow> split_chunks chunk_size (drop chunk_size rest) \<noteq> []"
    proof -
      have "split_chunks chunk_size (drop chunk_size rest) \<noteq> [] \<longleftrightarrow> drop chunk_size rest \<noteq> []"
        using split_chunks_empty_iff[of chunk_size "drop chunk_size rest"] by (simp add: chunk_size_def)
      also have "\<dots> \<longleftrightarrow> chunk_size < n - p" using lrest by (simp add: not_le)
      also have "\<dots> \<longleftrightarrow> more" using True by (auto simp: more_def)
      finally show ?thesis by simp
    qed
    have split: "split_chunks chunk_size rest = payload # split_chunks chunk_size (drop chunk_size rest)"
      using split_chunks_Cons[of chunk_size rest] rest_ne pay by (simp add: chunk_size_def)
    have w: "wrap_chunks r (p = 0) (split_chunks chunk_size rest) =
                hdr @ payload @ trailer @ wrap_chunks r False (split_chunks chunk_size (drop chunk_size rest))"
      using more_iff by (simp add: split hdr_def)
    have rem_eq: "size_sub ?size off = rem" using less.prems(2) by (simp add: size_sub_le rem_def)
    have "off + rem \<le> length buf" using less.prems by (simp add: rem_def)
    from snprintf_within[OF this, of hdr]
    obtain buf1 where snp: "snprintf buf off rem hdr = Some (buf1, int (length hdr))"
      and l1: "length buf1 = length buf" and t1: "take off buf1 = take off buf"
      and h1: "length hdr < rem \<longrightarrow> take (off + length hdr) buf1 = take off buf @ hdr"
      by blast
    define off1 where "off1 = off + length hdr"
    define off2 where "off2 = off1 + this"
    have unf: "chunk_loop r n p buf off =
        (if rem \<le> length hdr then Abort Header_overflow buf1
         else if ?size < off1 + this then Abort Payload_overflow buf1
         else case memcpy buf1 off1 payload of
                None \<Rightarrow> Out_of_bounds
              | Some buf2 \<Rightarrow>
                  if ?size < off2 + 2 then Abort Trailer_overflow buf2
                  else case memcpy buf2 off2 trailer of
                         None \<Rightarrow> Out_of_bounds
                       | Some buf3 \<Rightarrow> chunk_loop r n (p + this) buf3 (off2 + 2))"
    proof -
      have snp_raw: "snprintf buf off (size_sub ?size off) (chunk_header r (p = 0) (p + chunk_size < n)) =
            Some (buf1, int (length (chunk_header r (p = 0) (p + chunk_size < n))))"
        using snp by (simp add: rem_eq hdr_def more_def)
      show ?thesis
        unfolding off2_def off1_def payload_def hdr_def this_def more_def rem_eq[symmetric]
        using True
        apply (subst chunk_loop.simps)
        apply (unfold Let_def)
        apply (simp add: snp_raw not_le not_less split: option.split)
        done
    qed
    show ?thesis
    proof (cases "rem \<le> length hdr")
      case True
      then have "?size \<le> off + length hdr" by (simp add: rem_def)
      then show ?thesis using True unfolding rest_def[symmetric] w by (simp add: unf l1)
    next
      case hfit: False
      then have th: "take off1 buf1 = take off buf @ hdr" using h1 by (simp add: off1_def)
      show ?thesis
      proof (cases "?size < off1 + this")
        case True
        then have "?size \<le> off + length hdr + length payload" by (simp add: off1_def lp)
        then show ?thesis using hfit True unfolding rest_def[symmetric] w
          by (simp add: unf l1)
      next
        case pfit: False
        then have "off1 + length payload \<le> length buf1" using l1 less.prems(1) lp by simp
        then obtain buf2 where m2: "memcpy buf1 off1 payload = Some buf2" using memcpy_fits by blast
        note p2 = memcpy_Some[OF m2]
        have t2: "take off2 buf2 = take off buf @ hdr @ payload"
          using p2(2) th by (simp add: off2_def lp)
        have l2: "length buf2 = length buf" using p2(1) l1 by simp
        show ?thesis
        proof (cases "?size < off2 + 2")
          case True
          then have "?size \<le> off + length hdr + length payload + length trailer"
            by (simp add: off2_def off1_def lp trailer_def)
          then show ?thesis using hfit pfit True unfolding rest_def[symmetric] w
            by (simp add: unf m2 l2)
        next
          case tfit: False
          then have "off2 + length trailer \<le> length buf2"
            using l2 less.prems(1) by (simp add: trailer_def)
          then obtain buf3 where m3: "memcpy buf2 off2 trailer = Some buf3" using memcpy_fits by blast
          note p3 = memcpy_Some[OF m3]
          have t3: "take (off2 + 2) buf3 = take off buf @ hdr @ payload @ trailer"
            using p3(2) t2 by (simp add: trailer_def)
          have l3: "length buf3 = ?size" using p3(1) l2 less.prems(1) by simp
          have o3: "off2 + 2 \<le> ?size" using tfit by simp
          have dec: "n - (p + this) < n - p" using this_pos True by simp
          have unf': "chunk_loop r n p buf off = chunk_loop r n (p + this) buf3 (off2 + 2)"
            using hfit pfit tfit by (simp add: unf m2 m3)
          have nz: "(p + this = 0) = False" using this_pos by simp
          note ih = less.hyps[OF dec l3 o3, unfolded nz, folded dr]
          show ?thesis
            unfolding unf' rest_def[symmetric] w
            using ih l3 less.prems(1) t3 lp
            by (auto simp: off2_def off1_def trailer_def split: chunk_result.splits)
        qed
      qed
    qed
  qed
qed


subsection \<open>One call\<close>

lemma chunk_header_cong:
  "kitty_id r' = kitty_id r \<Longrightarrow> frame_number r' = frame_number r \<Longrightarrow>
   screen_cols r' = screen_cols r \<Longrightarrow> screen_rows r' = screen_rows r \<Longrightarrow>
   chunk_header r' first mc = chunk_header r first mc"
  by (simp add: chunk_header_def create_header_def update_header_def)

lemma wrap_chunks_cong:
  "kitty_id r' = kitty_id r \<Longrightarrow> frame_number r' = frame_number r \<Longrightarrow>
   screen_cols r' = screen_cols r \<Longrightarrow> screen_rows r' = screen_rows r \<Longrightarrow>
   wrap_chunks r' first cs = wrap_chunks r first cs"
proof (induction cs arbitrary: first)
  case Nil
  then show ?case by simp
next
  case (Cons c cs)
  have "chunk_header r' first (cs \<noteq> []) = chunk_header r first (cs \<noteq> [])"
    by (rule chunk_header_cong) (use Cons.prems in simp_all)
  then show ?case using Cons by simp
qed

lemma animate_step_result:
  assumes "length buf = protocol_buffer_size r" "off \<le> protocol_buffer_size r"
  shows "case animate_step r buf off of
           Continue buf' off' \<Rightarrow>
             length buf' = length buf \<and> off' \<le> protocol_buffer_size r \<and>
             take off' buf' = take off buf @ (if frame_number r > 0 then animate_command r else [])
         | Abort e buf' \<Rightarrow>
             length buf' = length buf \<and> 0 < frame_number r \<and>
             protocol_buffer_size r \<le> off + length (animate_command r)
         | Out_of_bounds \<Rightarrow> False"
proof (cases "frame_number r > 0")
  case False
  then show ?thesis using assms by (simp add: animate_step_def)
next
  case True
  define rem where "rem = protocol_buffer_size r - off"
  have rem_eq: "size_sub (protocol_buffer_size r) off = rem" using assms(2) by (simp add: size_sub_le rem_def)
  have "off + rem \<le> length buf" using assms by (simp add: rem_def)
  from snprintf_within[OF this, of "animate_command r"]
  obtain buf1 where snp: "snprintf buf off rem (animate_command r) = Some (buf1, int (length (animate_command r)))"
    and l1: "length buf1 = length buf"
    and h1: "length (animate_command r) < rem \<longrightarrow>
               take (off + length (animate_command r)) buf1 = take off buf @ animate_command r"
    by blast
  show ?thesis
  proof (cases "rem \<le> length (animate_command r)")
    case True
    then have "protocol_buffer_size r \<le> off + length (animate_command r)" by (simp add: rem_def)
    then show ?thesis using \<open>frame_number r > 0\<close> True
      by (simp add: animate_step_def Let_def rem_eq snp l1)
  next
    case False
    then have "off + length (animate_command r) \<le> protocol_buffer_size r" using assms(2) by (simp add: rem_def)
    then show ?thesis using \<open>frame_number r > 0\<close> False h1
      by (simp add: animate_step_def Let_def rem_eq snp l1)
  qed
qed

lemma newline_step_result:
  assumes "length buf = protocol_buffer_size r" "off \<le> protocol_buffer_size r"
  shows "case newline_step r buf off of
           Continue buf' off' \<Rightarrow>
             length buf' = length buf \<and> off' \<le> protocol_buffer_size r \<and>
             take off' buf' = take off buf @ (if frame_number r = 0 then newline else [])
         | Abort e buf' \<Rightarrow>
             length buf' = length buf \<and> frame_number r = 0 \<and> protocol_buffer_size r < off + 2
         | Out_of_bounds \<Rightarrow> False"
proof (cases "frame_number r = 0")
  case False
  then show ?thesis using assms by (simp add: newline_step_def)
next
  case True
  show ?thesis
  proof (cases "off + 2 > protocol_buffer_size r")
    case True
    then show ?thesis using \<open>frame_number r = 0\<close> by (simp add: newline_step_def)
  next
    case False
    then have "off + length newline \<le> length buf" using assms(1) by (simp add: newline_def)
    then obtain buf1 where m: "memcpy buf off newline = Some buf1" using memcpy_fits by blast
    note p = memcpy_Some[OF m]
    have "take (off + 2) buf1 = take off buf @ newline" using p(2) by (simp add: newline_def)
    then show ?thesis using \<open>frame_number r = 0\<close> False p(1) m
      by (simp add: newline_step_def)
  qed
qed


text \<open>What holds of every call, whatever the renderer and the payload.\<close>

lemma render_frame_always:
  "screen_rows (fst (renderer_render_frame r enc)) = screen_rows r \<and>
   screen_cols (fst (renderer_render_frame r enc)) = screen_cols r \<and>
   kitty_id (fst (renderer_render_frame r enc)) = kitty_id r \<and>
   encoded_buffer_size (fst (renderer_render_frame r enc)) = encoded_buffer_size r \<and>
   protocol_buffer_size (fst (renderer_render_frame r enc)) = protocol_buffer_size r \<and>
   frame_number (fst (renderer_render_frame r enc)) =
     (if snd (snd (renderer_render_frame r enc)) = Written then c_int (frame_number r + 1)
      else frame_number r) \<and>
   (snd (snd (renderer_render_frame r enc)) \<noteq> Written \<longrightarrow>
      fst (snd (renderer_render_frame r enc)) = preamble r)"
proof (cases "store_encoded r enc")
  case None
  then show ?thesis by (simp add: renderer_render_frame_def Let_def)
next
  case (Some r1)
  then obtain m where r1: "r1 = r\<lparr>encoded_buffer := m\<rparr>"
    by (auto simp: store_encoded_def)
  have f: "screen_rows r1 = screen_rows r" "screen_cols r1 = screen_cols r" "kitty_id r1 = kitty_id r"
    "encoded_buffer_size r1 = encoded_buffer_size r" "protocol_buffer_size r1 = protocol_buffer_size r"
    "frame_number r1 = frame_number r"
    by (simp_all add: r1)
  show ?thesis
  proof (cases "chunk_loop r1 (length enc) 0 (protocol_buffer r1) 0")
    case Out_of_bounds
    then show ?thesis by (simp add: renderer_render_frame_def Let_def Some f)
  next
    case (Abort e buf)
    then show ?thesis by (simp add: renderer_render_frame_def Let_def Some f)
  next
    case (Continue buf off)
    show ?thesis
    proof (cases "animate_step r1 buf off")
      case Out_of_bounds
      then show ?thesis by (simp add: renderer_render_frame_def Let_def Some Continue f)
    next
      case (Abort e buf1)
      then show ?thesis by (simp add: renderer_render_frame_def Let_def Some Continue f)
    next
      case C1: (Continue buf1 off1)
      show ?thesis
      proof (cases "newline_step r1 buf1 off1")
        case Out_of_bounds
        then show ?thesis by (simp add: renderer_render_frame_def Let_def Some Continue C1 f)
      next
        case (Abort e buf2)
        then show ?thesis by (simp add: renderer_render_frame_def Let_def Some Continue C1 f)
      next
        case C2: (Continue buf2 off2)
        then show ?thesis by (simp add: renderer_render_frame_def Let_def Some Continue C1 f)
      qed
    qed
  qed
qed


text \<open>A well-formed renderer whose encoded buffer has room for the payload and its NUL.\<close>

lemma render_frame_ok:
  assumes ok: "renderer_ok r" and fits: "length enc < encoded_buffer_size r"
  shows "snd (snd (renderer_render_frame r enc)) \<noteq> Mem_fault"
    and "renderer_ok (fst (renderer_render_frame r enc))"
    and "snd (snd (renderer_render_frame r enc)) = Written \<Longrightarrow>
           fst (snd (renderer_render_frame r enc)) = preamble r @ frame_bytes r enc \<and>
           length (frame_bytes r enc) \<le> protocol_buffer_size r"
    and "snd (snd (renderer_render_frame r enc)) \<noteq> Written \<Longrightarrow>
           protocol_buffer_size r \<le> length (frame_bytes r enc)"
proof -
  let ?E = "enc @ [CHR 0x00] @ drop (Suc (length enc)) (encoded_buffer r)"
  define r1 where "r1 = r\<lparr>encoded_buffer := ?E\<rparr>"
  have lE: "length (encoded_buffer r) = encoded_buffer_size r" "length (protocol_buffer r) = protocol_buffer_size r"
    using ok by (simp_all add: renderer_ok_def)
  have st: "store_encoded r enc = Some r1"
    using fits lE by (simp add: store_encoded_def memcpy_def r1_def)
  have r1f: "kitty_id r1 = kitty_id r" "frame_number r1 = frame_number r" "screen_cols r1 = screen_cols r"
    "screen_rows r1 = screen_rows r" "protocol_buffer_size r1 = protocol_buffer_size r"
    "encoded_buffer_size r1 = encoded_buffer_size r"
    by (simp_all add: r1_def)
  have r1p: "length (protocol_buffer r1) = protocol_buffer_size r" using lE by (simp add: r1_def)
  have lE1: "length (encoded_buffer r1) = encoded_buffer_size r" using fits lE by (simp add: r1_def)
  have tk: "take (length enc) (encoded_buffer r1) = enc" by (simp add: r1_def)
  have a1: "length (protocol_buffer r1) = protocol_buffer_size r1" "0 \<le> protocol_buffer_size r1"
    "length enc \<le> length (encoded_buffer r1)"
    using r1p fits lE1 by (simp_all add: r1f)
  note loop = chunk_loop_result[OF a1(1) a1(2) a1(3), of 0, simplified, unfolded tk]
  have an: "animate_command r1 = animate_command r" by (simp add: animate_command_def r1f)
  have wr: "\<And>first cs. wrap_chunks r1 first cs = wrap_chunks r first cs"
    by (rule wrap_chunks_cong) (simp_all add: r1f)
  have unf: "renderer_render_frame r enc =
      (case chunk_loop r1 (length enc) 0 (protocol_buffer r1) 0 of
             Out_of_bounds \<Rightarrow> (r1, preamble r, Mem_fault)
           | Abort e buf \<Rightarrow> (r1\<lparr>protocol_buffer := buf\<rparr>, preamble r, Skipped e)
           | Continue buf buf_offset \<Rightarrow>
               (case animate_step r1 buf buf_offset of
                  Out_of_bounds \<Rightarrow> (r1, preamble r, Mem_fault)
                | Abort e buf1 \<Rightarrow> (r1\<lparr>protocol_buffer := buf1\<rparr>, preamble r, Skipped e)
                | Continue buf1 off1 \<Rightarrow>
                    (case newline_step r1 buf1 off1 of
                       Out_of_bounds \<Rightarrow> (r1, preamble r, Mem_fault)
                     | Abort e buf2 \<Rightarrow> (r1\<lparr>protocol_buffer := buf2\<rparr>, preamble r, Skipped e)
                     | Continue buf2 off2 \<Rightarrow>
                         (r1\<lparr>protocol_buffer := buf2, frame_number := c_int (frame_number r1 + 1)\<rparr>,
                          preamble r @ take off2 buf2, Written))))"
    by (simp add: renderer_render_frame_def Let_def st)
  show "snd (snd (renderer_render_frame r enc)) \<noteq> Mem_fault"
    and "renderer_ok (fst (renderer_render_frame r enc))"
    and "snd (snd (renderer_render_frame r enc)) = Written \<Longrightarrow>
           fst (snd (renderer_render_frame r enc)) = preamble r @ frame_bytes r enc \<and>
           length (frame_bytes r enc) \<le> protocol_buffer_size r"
    and "snd (snd (renderer_render_frame r enc)) \<noteq> Written \<Longrightarrow>
           protocol_buffer_size r \<le> length (frame_bytes r enc)"
  proof -
    have all: "snd (snd (renderer_render_frame r enc)) \<noteq> Mem_fault \<and>
      renderer_ok (fst (renderer_render_frame r enc)) \<and>
      (snd (snd (renderer_render_frame r enc)) = Written \<longrightarrow>
           fst (snd (renderer_render_frame r enc)) = preamble r @ frame_bytes r enc \<and>
           length (frame_bytes r enc) \<le> protocol_buffer_size r) \<and>
      (snd (snd (renderer_render_frame r enc)) \<noteq> Written \<longrightarrow>
           protocol_buffer_size r \<le> length (frame_bytes r enc))"
    proof (cases "chunk_loop r1 (length enc) 0 (protocol_buffer r1) 0")
      case Out_of_bounds
      then show ?thesis using loop by simp
    next
      case (Abort e buf)
      then have "protocol_buffer_size r \<le> length (wrap_chunks r True (split_chunks chunk_size enc))"
        using loop by (simp add: wr r1f tk)
      then have "protocol_buffer_size r \<le> length (frame_bytes r enc)" by (simp add: frame_bytes_def)
      then show ?thesis using Abort loop ok lE1 r1p by (simp add: unf renderer_ok_def r1f)
    next
      case (Continue buf off)
      then have c: "length buf = protocol_buffer_size r1" "off \<le> protocol_buffer_size r1"
        "take off buf = wrap_chunks r True (split_chunks chunk_size enc)"
        using loop a1(1) r1p by (simp_all add: wr tk r1f)
      have offl: "off = length (wrap_chunks r True (split_chunks chunk_size enc))"
        using c(1,2) c(3)[symmetric] by simp
      note an_r = animate_step_result[OF c(1,2)]
      show ?thesis
      proof (cases "animate_step r1 buf off")
        case Out_of_bounds
        then show ?thesis using an_r by simp
      next
        case (Abort e buf1)
        then have "protocol_buffer_size r \<le> length (frame_bytes r enc)"
          using an_r by (simp add: frame_bytes_def offl an r1f)
        then show ?thesis using Abort an_r ok lE1 c(1) r1p
          by (simp add: unf Continue renderer_ok_def r1f)
      next
        case C1: (Continue buf1 off1)
        then have c1: "length buf1 = protocol_buffer_size r1" "off1 \<le> protocol_buffer_size r1"
          "take off1 buf1 = wrap_chunks r True (split_chunks chunk_size enc) @
              (if frame_number r > 0 then animate_command r else [])"
          using an_r c by (simp_all add: an r1f)
        have offl1: "off1 = length (wrap_chunks r True (split_chunks chunk_size enc) @
              (if frame_number r > 0 then animate_command r else []))"
          using c1(1,2) c1(3)[symmetric] by simp
        note nl_r = newline_step_result[OF c1(1,2)]
        show ?thesis
        proof (cases "newline_step r1 buf1 off1")
          case Out_of_bounds
          then show ?thesis using nl_r by simp
        next
          case (Abort e buf2)
          then have "protocol_buffer_size r \<le> length (frame_bytes r enc)"
            using nl_r by (auto simp: frame_bytes_def offl1 newline_def r1f)
          then show ?thesis using Abort nl_r ok lE1 c1(1) r1p
            by (simp add: unf Continue C1 renderer_ok_def r1f)
        next
          case C2: (Continue buf2 off2)
          then have c2: "length buf2 = protocol_buffer_size r1" "off2 \<le> protocol_buffer_size r1"
            "take off2 buf2 = frame_bytes r enc"
            using nl_r c1 by (simp_all add: frame_bytes_def r1f)
          have "length (frame_bytes r enc) = off2" using c2(1,2) c2(3)[symmetric] by simp
          then show ?thesis using c2 ok lE1 r1p
            by (simp add: unf Continue C1 C2 renderer_ok_def r1f)
        qed
      qed
    qed
    show "snd (snd (renderer_render_frame r enc)) \<noteq> Mem_fault"
      and "renderer_ok (fst (renderer_render_frame r enc))"
      and "snd (snd (renderer_render_frame r enc)) = Written \<Longrightarrow>
           fst (snd (renderer_render_frame r enc)) = preamble r @ frame_bytes r enc \<and>
           length (frame_bytes r enc) \<le> protocol_buffer_size r"
      and "snd (snd (renderer_render_frame r enc)) \<noteq> Written \<Longrightarrow>
           protocol_buffer_size r \<le> length (frame_bytes r enc)"
      using all by simp_all
  qed
qed


lemma dec_digits_length: "n < 10 ^ k \<Longrightarrow> 0 < k \<Longrightarrow> length (dec_digits n) \<le> k"
proof (induction k arbitrary: n)
  case 0
  then show ?case by simp
next
  case (Suc k)
  show ?case
  proof (cases "n < 10")
    case True
    then show ?thesis by (subst dec_digits.simps) simp
  next
    case False
    then have k: "0 < k" using Suc.prems(1) by (cases k) simp_all
    have "n div 10 < 10 ^ k" using Suc.prems(1) by (simp add: less_mult_imp_div_less mult.commute)
    then have "length (dec_digits (n div 10)) \<le> k" using Suc.IH k by simp
    then show ?thesis using False by (subst dec_digits.simps) simp
  qed
qed

lemma fmt_d_length:
  assumes "- (10 ^ 19) < i" "i < 10 ^ 19"
  shows "length (fmt_d i) \<le> 20"
proof (cases "i < 0")
  case True
  then have "nat (- i) < 10 ^ 19" using assms(1) by (simp add: nat_less_iff)
  from dec_digits_length[OF this] show ?thesis using True by (simp add: fmt_d_def)
next
  case False
  then have "nat i < 10 ^ 19" using assms(2) by (simp add: nat_less_iff)
  from dec_digits_length[OF this] show ?thesis using False by (simp add: fmt_d_def)
qed

lemma fmt_d_small:
  "length (fmt_d WIDTH) \<le> 3" "length (fmt_d HEIGHT) \<le> 3" "length (fmt_d (m_flag mc)) \<le> 1"
  using dec_digits_length[of 320 3] dec_digits_length[of 200 3]
    dec_digits_length[of 0 1] dec_digits_length[of 1 1]
  by (simp_all add: fmt_d_def WIDTH_def HEIGHT_def m_flag_def)

lemma chunk_header_length:
  "length (chunk_header r first mc) \<le>
     43 + length (fmt_d (kitty_id r)) + length (fmt_d (screen_cols r)) + length (fmt_d (screen_rows r))"
  using fmt_d_small(1) fmt_d_small(2) fmt_d_small(3)[of mc]
  by (simp add: chunk_header_def create_header_def update_header_def create_continuation_def
      update_continuation_def)

lemma wrap_chunks_length_le:
  assumes "\<And>first mc. length (chunk_header r first mc) \<le> H"
  shows "length (wrap_chunks r first cs) \<le> length (concat cs) + length cs * (H + 2)"
proof (induction cs arbitrary: first)
  case Nil
  then show ?case by simp
next
  case (Cons c cs)
  from Cons.IH[of False] assms[of first "cs \<noteq> []"] show ?case by (simp add: trailer_def)
qed

lemma length_split_chunks_le:
  assumes "0 < n"
  shows "length (split_chunks n xs) \<le> length xs div n + 1"
proof -
  have "length (split_chunks n xs) = length (map length (split_chunks n xs))" by simp
  also have "\<dots> = length xs div n + (if length xs mod n = 0 then 0 else 1)"
    using assms by (simp add: split_chunks_lengths)
  finally show ?thesis by simp
qed


lemma animate_command_length: "length (animate_command r) = 16 + length (fmt_d (kitty_id r))"
  by (simp add: animate_command_def)

lemma frame_bytes_length_le:
  "length (frame_bytes r enc) \<le>
     length enc +
     (length enc div chunk_size + 1) *
       (45 + length (fmt_d (kitty_id r)) + length (fmt_d (screen_cols r)) +
        length (fmt_d (screen_rows r))) +
     18 + length (fmt_d (kitty_id r))"
proof -
  define H where "H = 43 + length (fmt_d (kitty_id r)) + length (fmt_d (screen_cols r)) +
        length (fmt_d (screen_rows r))"
  have h: "\<And>first mc. length (chunk_header r first mc) \<le> H"
    unfolding H_def by (rule chunk_header_length)
  have c: "length (split_chunks chunk_size enc) \<le> length enc div chunk_size + 1"
    by (rule length_split_chunks_le) (simp add: chunk_size_def)
  have "length (wrap_chunks r True (split_chunks chunk_size enc)) \<le>
          length (concat (split_chunks chunk_size enc)) + length (split_chunks chunk_size enc) * (H + 2)"
    by (rule wrap_chunks_length_le[OF h])
  also have "\<dots> = length enc + length (split_chunks chunk_size enc) * (H + 2)"
    by (simp add: concat_split_chunks chunk_size_def)
  also have "\<dots> \<le> length enc + (length enc div chunk_size + 1) * (H + 2)"
    using mult_le_mono1[OF c, of "H + 2"] by linarith
  finally have w: "length (wrap_chunks r True (split_chunks chunk_size enc)) \<le>
      length enc + (length enc div chunk_size + 1) * (H + 2)" .
  have t: "length ((if frame_number r > 0 then animate_command r else []) @
             (if frame_number r = 0 then newline else [])) \<le> 18 + length (fmt_d (kitty_id r))"
    by (simp add: animate_command_length newline_def)
  have e: "H + 2 = 45 + length (fmt_d (kitty_id r)) + length (fmt_d (screen_cols r)) +
        length (fmt_d (screen_rows r))" by (simp add: H_def)
  show ?thesis using w t unfolding frame_bytes_def e[symmetric] by simp
qed

text \<open>A frame whose protocol bytes are shorter than the buffer is transmitted.\<close>

lemma render_frame_written:
  assumes "renderer_ok r" "length enc < encoded_buffer_size r"
    and "length (frame_bytes r enc) < protocol_buffer_size r"
  shows "snd (snd (renderer_render_frame r enc)) = Written"
  using render_frame_ok(4)[OF assms(1,2)] assms(3) by force

text \<open>With the buffer of \<open>renderer_create\<close> and a payload of at most 256000 bytes, no frame
  is dropped, whatever the identifier and the screen size (as 64-bit values).\<close>

lemma render_frame_never_dropped:
  assumes ok: "renderer_ok r" and fits: "length enc < encoded_buffer_size r"
    and sz: "protocol_buffer_size r = 280 * 1024" and len: "length enc \<le> 256000"
    and id: "- (10 ^ 19) < kitty_id r" "kitty_id r < 10 ^ 19"
    and cols: "- (10 ^ 19) < screen_cols r" "screen_cols r < 10 ^ 19"
    and rows: "- (10 ^ 19) < screen_rows r" "screen_rows r < 10 ^ 19"
  shows "snd (snd (renderer_render_frame r enc)) = Written"
proof -
  define a where "a = length (fmt_d (kitty_id r))"
  define b where "b = length (fmt_d (screen_cols r))"
  define c where "c = length (fmt_d (screen_rows r))"
  define q where "q = length enc div chunk_size"
  have abc: "a \<le> 20" "b \<le> 20" "c \<le> 20"
    using fmt_d_length[OF id] fmt_d_length[OF cols] fmt_d_length[OF rows]
    by (simp_all add: a_def b_def c_def)
  have q: "q \<le> 62" using len unfolding q_def chunk_size_def by simp
  have "45 + a + b + c \<le> 105" using abc by simp
  then have "(q + 1) * (45 + a + b + c) \<le> 63 * 105" using q by (intro mult_le_mono) simp_all
  then have "length enc + (q + 1) * (45 + a + b + c) + 18 + a < 280 * 1024"
    using len abc(1) by simp
  then have "length (frame_bytes r enc) < protocol_buffer_size r"
    using frame_bytes_length_le[of r enc] unfolding a_def b_def c_def q_def sz by simp
  with ok fits show ?thesis by (rule render_frame_written)
qed

lemma doom_renderer_ok: "renderer_ok doom_renderer"
  by (simp add: doom_renderer_def renderer_create_def renderer_ok_def WIDTH_def HEIGHT_def)

lemma doom_renderer_fields:
  "frame_number doom_renderer = 0" "kitty_id doom_renderer = 7" "screen_cols doom_renderer = 80"
  "screen_rows doom_renderer = 24" "protocol_buffer_size doom_renderer = 280 * 1024"
  "encoded_buffer_size doom_renderer = 256001"
  by (simp_all add: doom_renderer_def renderer_create_def WIDTH_def HEIGHT_def)

lemma doom_payload_length: "length doom_payload = 256000"
  by (simp add: doom_payload_def)

lemma doom_frame_written:
  "snd (snd (renderer_render_frame doom_renderer doom_payload)) = Written"
  by (rule render_frame_never_dropped)
     (simp_all add: doom_renderer_ok doom_renderer_fields doom_payload_length)


subsection \<open>The shape of a transmitted frame\<close>

lemma ends_with_rev: "ends_with s xs \<longleftrightarrow> take (length s) (rev xs) = rev s"
proof
  assume "ends_with s xs"
  then show "take (length s) (rev xs) = rev s" by (simp add: ends_with_def take_rev)
next
  assume a: "take (length s) (rev xs) = rev s"
  then have d: "drop (length xs - length s) xs = s" by (simp add: take_rev)
  have "length s \<le> length xs"
  proof (rule ccontr)
    assume "\<not> length s \<le> length xs"
    then show False using d by auto
  qed
  then show "ends_with s xs" using d by (simp add: ends_with_def)
qed

lemma ends_with_append_same: "ends_with s (xs @ s)"
  by (simp add: ends_with_def)

lemma wrap_chunks_trailer: "cs \<noteq> [] \<Longrightarrow> \<exists>p. wrap_chunks r first cs = p @ trailer"
proof (induction cs arbitrary: first)
  case Nil
  then show ?case by simp
next
  case (Cons c cs)
  show ?case
  proof (cases "cs = []")
    case True
    then have "wrap_chunks r first (c # cs) = (chunk_header r first False @ c) @ trailer" by simp
    then show ?thesis by blast
  next
    case False
    then obtain p where "wrap_chunks r False cs = p @ trailer" using Cons.IH by blast
    then have "wrap_chunks r first (c # cs) = (chunk_header r first True @ c @ trailer @ p) @ trailer"
      using False by simp
    then show ?thesis by blast
  qed
qed

lemma wrap_first_chunk:
  assumes "enc \<noteq> []"
  shows "wrap_chunks r True (split_chunks chunk_size enc) =
           chunk_header r True (chunk_size < length enc) @ take chunk_size enc @ trailer @
           wrap_chunks r False (split_chunks chunk_size (drop chunk_size enc))"
proof -
  have s: "split_chunks chunk_size enc = take chunk_size enc # split_chunks chunk_size (drop chunk_size enc)"
    using split_chunks_Cons[of chunk_size enc] assms by (simp add: chunk_size_def)
  have "split_chunks chunk_size (drop chunk_size enc) \<noteq> [] \<longleftrightarrow> drop chunk_size enc \<noteq> []"
    using split_chunks_empty_iff[of chunk_size "drop chunk_size enc"] by (simp add: chunk_size_def)
  then have m: "split_chunks chunk_size (drop chunk_size enc) \<noteq> [] \<longleftrightarrow> chunk_size < length enc"
    by (simp add: not_le)
  show ?thesis by (simp add: s m)
qed

lemma not_newline_simps:
  "\<not> ends_with newline []" "\<not> ends_with newline cursor_home"
  "\<not> ends_with newline (xs @ trailer)" "\<not> ends_with newline (xs @ animate_command r)"
  by (simp_all add: ends_with_rev newline_def cursor_home_def ESC_def trailer_def animate_command_def)

lemma render_frame_newline_iff:
  assumes ok: "renderer_ok r" and fits: "length enc < encoded_buffer_size r"
  shows "ends_with newline (fst (snd (renderer_render_frame r enc))) \<longleftrightarrow>
           frame_number r = 0 \<and> snd (snd (renderer_render_frame r enc)) = Written"
proof (cases "snd (snd (renderer_render_frame r enc)) = Written")
  case False
  then have "fst (snd (renderer_render_frame r enc)) = preamble r"
    using render_frame_always[of r enc] by simp
  then show ?thesis using False by (simp add: preamble_def not_newline_simps)
next
  case True
  note out = render_frame_ok(3)[OF ok fits True, THEN conjunct1]
  consider "frame_number r = 0" | "0 < frame_number r" | "frame_number r < 0" by linarith
  then show ?thesis
  proof cases
    case 1
    then have "fst (snd (renderer_render_frame r enc)) =
        (preamble r @ wrap_chunks r True (split_chunks chunk_size enc)) @ newline"
      using out by (simp add: frame_bytes_def)
    then have "ends_with newline (fst (snd (renderer_render_frame r enc)))"
      by (simp only: ends_with_append_same)
    then show ?thesis using True 1 by simp
  next
    case 2
    then have "fst (snd (renderer_render_frame r enc)) =
        (wrap_chunks r True (split_chunks chunk_size enc)) @ animate_command r"
      using out by (simp add: frame_bytes_def preamble_def)
    then show ?thesis using 2 by (simp add: not_newline_simps)
  next
    case 3
    then have o: "fst (snd (renderer_render_frame r enc)) = wrap_chunks r True (split_chunks chunk_size enc)"
      using out by (simp add: frame_bytes_def preamble_def)
    show ?thesis
    proof (cases "split_chunks chunk_size enc = []")
      case True
      then show ?thesis using o 3 by (simp add: not_newline_simps)
    next
      case False
      then obtain p where "wrap_chunks r True (split_chunks chunk_size enc) = p @ trailer"
        using wrap_chunks_trailer by blast
      then show ?thesis using o 3 by (simp add: not_newline_simps)
    qed
  qed
qed

subsection \<open>Sequences of calls\<close>

lemma render_frames_Cons:
  "fst (render_frames r (enc # encs)) = fst (render_frames (fst (renderer_render_frame r enc)) encs)"
  "snd (render_frames r (enc # encs)) =
     (fst (snd (renderer_render_frame r enc)), snd (snd (renderer_render_frame r enc))) #
     snd (render_frames (fst (renderer_render_frame r enc)) encs)"
  by (simp_all split: prod.splits)

declare render_frames.simps(2) [simp del]

lemma written_count_Cons:
  "written_count (snd (render_frames r (enc # encs))) =
      (if snd (snd (renderer_render_frame r enc)) = Written then 1 else 0) +
      written_count (snd (render_frames (fst (renderer_render_frame r enc)) encs))"
  by (simp add: render_frames_Cons written_count_def case_prod_beta)

lemma written_count_le: "written_count (snd (render_frames r encs)) \<le> length encs"
proof (induction encs arbitrary: r)
  case Nil
  then show ?case by (simp add: written_count_def)
next
  case (Cons enc encs)
  show ?case using Cons[of "fst (renderer_render_frame r enc)"] by (simp add: written_count_Cons)
qed

lemma render_frames_fields:
  "kitty_id (fst (render_frames r encs)) = kitty_id r \<and>
   screen_rows (fst (render_frames r encs)) = screen_rows r \<and>
   screen_cols (fst (render_frames r encs)) = screen_cols r \<and>
   encoded_buffer_size (fst (render_frames r encs)) = encoded_buffer_size r \<and>
   protocol_buffer_size (fst (render_frames r encs)) = protocol_buffer_size r"
proof (induction encs arbitrary: r)
  case Nil
  then show ?case by simp
next
  case (Cons enc encs)
  note a = render_frame_always[of r enc]
  note ih = Cons.IH[of "fst (renderer_render_frame r enc)"]
  show ?case using a ih unfolding render_frames_Cons(1) by simp
qed

text \<open>The frame counter over a sequence of calls: it wraps as a C \<open>int\<close>, and while it stays
  below \<open>2^31\<close> it is the number of transmitted frames added to the start value.\<close>

lemma c_int_add: "c_int (c_int a + b) = c_int (a + b)"
proof -
  have "(c_int a + b + 2147483648) mod 4294967296 =
        ((a + 2147483648) mod 4294967296 + b) mod 4294967296"
    by (simp add: c_int_def algebra_simps)
  also have "\<dots> = (a + 2147483648 + b) mod 4294967296" by (simp add: mod_add_left_eq)
  finally show ?thesis by (simp add: c_int_def algebra_simps)
qed

lemma render_frames_counter_wrap:
  assumes "int_range (frame_number r)"
  shows "frame_number (fst (render_frames r encs)) =
           c_int (frame_number r + int (written_count (snd (render_frames r encs))))"
  using assms
proof (induction encs arbitrary: r)
  case Nil
  then show ?case by (simp add: written_count_def c_int_id int_range_def)
next
  case (Cons enc encs)
  let ?r' = "fst (renderer_render_frame r enc)"
  note a = render_frame_always[of r enc]
  show ?case
  proof (cases "snd (snd (renderer_render_frame r enc)) = Written")
    case True
    then have fn: "frame_number ?r' = c_int (frame_number r + 1)" using a by simp
    then have "int_range (frame_number ?r')" by (simp add: c_int_range)
    from Cons.IH[OF this] show ?thesis
      using True by (simp add: render_frames_Cons(1) written_count_Cons fn c_int_add algebra_simps)
  next
    case False
    then have fn: "frame_number ?r' = frame_number r" using a by simp
    then have "int_range (frame_number ?r')" using Cons.prems by simp
    from Cons.IH[OF this] show ?thesis
      using False by (simp add: render_frames_Cons(1) written_count_Cons fn)
  qed
qed

lemma render_frames_counter:
  assumes "- 2147483648 \<le> frame_number r" "frame_number r + int (length encs) \<le> 2147483647"
  shows "frame_number (fst (render_frames r encs)) =
           frame_number r + int (written_count (snd (render_frames r encs)))"
proof -
  have "int_range (frame_number r)" using assms by (simp add: int_range_def)
  moreover have "int (written_count (snd (render_frames r encs))) \<le> int (length encs)"
    using written_count_le[of r encs] by simp
  ultimately show ?thesis
    using render_frames_counter_wrap[of r encs] assms by (simp add: c_int_id)
qed

lemma newline_count_later:
  assumes "renderer_ok r" "0 < frame_number r" "frame_number r + int (length encs) \<le> 2147483647"
    "\<forall>e\<in>set encs. length e < encoded_buffer_size r"
  shows "newline_count (snd (render_frames r encs)) = 0"
  using assms
proof (induction encs arbitrary: r)
  case Nil
  then show ?case by (simp add: newline_count_def)
next
  case (Cons enc encs)
  let ?r' = "fst (renderer_render_frame r enc)"
  have fits: "length enc < encoded_buffer_size r" using Cons.prems(4) by simp
  note a = render_frame_always[of r enc]
  have ok': "renderer_ok ?r'" using render_frame_ok(2)[OF Cons.prems(1) fits] .
  have inc: "c_int (frame_number r + 1) = frame_number r + 1"
    using Cons.prems(2,3) by (intro c_int_id) simp_all
  have fn: "0 < frame_number ?r'" "frame_number ?r' + int (length encs) \<le> 2147483647"
    using a Cons.prems(2,3) inc by (simp_all split: if_splits)
  have f': "\<forall>e\<in>set encs. length e < encoded_buffer_size ?r'" using a Cons.prems(4) by simp
  have "\<not> ends_with newline (fst (snd (renderer_render_frame r enc)))"
    using render_frame_newline_iff[OF Cons.prems(1) fits] Cons.prems(2) by simp
  then show ?case using Cons.IH[OF ok' fn f']
    by (simp add: render_frames_Cons newline_count_def case_prod_beta)
qed

lemma newline_count_first:
  assumes "renderer_ok r" "frame_number r = 0" "int (length encs) \<le> 2147483647"
    "\<forall>e\<in>set encs. length e < encoded_buffer_size r"
  shows "newline_count (snd (render_frames r encs)) =
           (if written_count (snd (render_frames r encs)) = 0 then 0 else 1)"
  using assms
proof (induction encs arbitrary: r)
  case Nil
  then show ?case by (simp add: newline_count_def written_count_def)
next
  case (Cons enc encs)
  let ?r' = "fst (renderer_render_frame r enc)"
  have fits: "length enc < encoded_buffer_size r" using Cons.prems(4) by simp
  note a = render_frame_always[of r enc]
  have ok': "renderer_ok ?r'" using render_frame_ok(2)[OF Cons.prems(1) fits] .
  have f': "\<forall>e\<in>set encs. length e < encoded_buffer_size ?r'" using a Cons.prems(4) by simp
  have len: "int (length encs) \<le> 2147483647" using Cons.prems(3) by simp
  note nl = render_frame_newline_iff[OF Cons.prems(1) fits]
  show ?case
  proof (cases "snd (snd (renderer_render_frame r enc)) = Written")
    case True
    have one: "c_int (0 + 1) = 1" by (simp add: c_int_def)
    have fn: "0 < frame_number ?r'" "frame_number ?r' + int (length encs) \<le> 2147483647"
      using a True Cons.prems(2,3) one by simp_all
    have "newline_count (snd (render_frames ?r' encs)) = 0"
      by (rule newline_count_later[OF ok' fn f'])
    then show ?thesis using True nl Cons.prems(2)
      by (simp add: render_frames_Cons newline_count_def written_count_def case_prod_beta)
  next
    case False
    then have fn: "frame_number ?r' = 0" using a Cons.prems(2) by simp
    note ih = Cons.IH[OF ok' fn len f']
    show ?thesis using False nl ih
      by (simp add: render_frames_Cons newline_count_def written_count_def case_prod_beta)
  qed
qed


subsection \<open>Dropped frames\<close>

text \<open>
  Claim C5, as the code has it. Let the renderer be well formed and the encoded payload
  fit its buffer. Then no call writes outside a buffer, and the renderer is well formed
  afterwards, ready for the next tick. A frame whose protocol bytes are longer than the
  protocol buffer is dropped. A dropped frame reports one of the capacity errors, and no
  byte of the frame reaches the output stream: the call has written nothing on a frame
  after the first, and on frame 0 only the cursor-home sequence that it writes before it
  encodes. The frame counter stays, and a frame is dropped only when its protocol bytes
  do not fit.
\<close>

theorem render_frame_dropped:
  assumes ok: "renderer_ok r" and fits: "length enc < encoded_buffer_size r"
  shows "snd (snd (renderer_render_frame r enc)) \<noteq> Mem_fault \<and>
         renderer_ok (fst (renderer_render_frame r enc)) \<and>
         (protocol_buffer_size r < length (frame_bytes r enc) \<longrightarrow>
            snd (snd (renderer_render_frame r enc)) \<noteq> Written) \<and>
         (snd (snd (renderer_render_frame r enc)) \<noteq> Written \<longrightarrow>
            (\<exists>e. snd (snd (renderer_render_frame r enc)) = Skipped e) \<and>
            fst (snd (renderer_render_frame r enc)) = (if frame_number r = 0 then cursor_home else []) \<and>
            frame_number (fst (renderer_render_frame r enc)) = frame_number r \<and>
            protocol_buffer_size r \<le> length (frame_bytes r enc))"
proof -
  note a = render_frame_always[of r enc]
  note b = render_frame_ok[OF ok fits]
  have sk: "\<exists>e. snd (snd (renderer_render_frame r enc)) = Skipped e"
    if "snd (snd (renderer_render_frame r enc)) \<noteq> Written"
    using that b(1) by (cases "snd (snd (renderer_render_frame r enc))") simp_all
  have big: "snd (snd (renderer_render_frame r enc)) \<noteq> Written"
    if "protocol_buffer_size r < length (frame_bytes r enc)"
    using that b(3) by force
  show ?thesis using a b(1) b(2) b(4) sk big by (simp add: preamble_def)
qed

theorem render_frame_dropped_witness:
  "renderer_ok (demo_renderer 10 3) \<and>
   length ''QUJD'' < encoded_buffer_size (demo_renderer 10 3) \<and>
   protocol_buffer_size (demo_renderer 10 3) < length (frame_bytes (demo_renderer 10 3) ''QUJD'') \<and>
   (\<exists>e. snd (snd (renderer_render_frame (demo_renderer 10 3) ''QUJD'')) = Skipped e) \<and>
   fst (snd (renderer_render_frame (demo_renderer 10 3) ''QUJD'')) = [] \<and>
   frame_number (fst (renderer_render_frame (demo_renderer 10 3) ''QUJD'')) = 3 \<and>
   renderer_ok (fst (renderer_render_frame (demo_renderer 10 3) ''QUJD''))"
proof -
  have ok: "renderer_ok (demo_renderer 10 3)" by (simp add: demo_renderer_def renderer_ok_def)
  have fits: "length ''QUJD'' < encoded_buffer_size (demo_renderer 10 3)"
    by (simp add: demo_renderer_def)
  have big: "protocol_buffer_size (demo_renderer 10 3) < length (frame_bytes (demo_renderer 10 3) ''QUJD'')"
    by code_simp
  have fn: "frame_number (demo_renderer 10 3) = 3" by (simp add: demo_renderer_def)
  note t = render_frame_dropped[OF ok fits]
  have d: "snd (snd (renderer_render_frame (demo_renderer 10 3) ''QUJD'')) \<noteq> Written"
    using t big by blast
  show ?thesis using t d ok fits big by (simp add: fn)
qed

text \<open>The claim as stated, that a dropped frame writes nothing at all, fails on frame 0:
  with a protocol buffer of 10 bytes the header does not fit and the frame is dropped,
  but the call has already written the three bytes of the cursor-home sequence.\<close>

theorem render_frame_dropped_counterexample:
  "snd (snd (renderer_render_frame (demo_renderer 10 0) ''QUJD'')) = Skipped Header_overflow \<and>
   fst (snd (renderer_render_frame (demo_renderer 10 0) ''QUJD'')) = [CHR 0x1B, CHR ''['', CHR ''H'']"
  by code_simp

text \<open>
  Claim C10, as the code has it. After every call the scalar fields of the renderer
  (screen size, image identifier, buffer sizes) are what they were, and the frame counter
  is unchanged when the frame was dropped and incremented, as a C \<open>int\<close>, when the call
  reached the batched write: one more, and \<open>-2^31\<close> after \<open>2^31 - 1\<close>. So after a dropped
  frame the next call formats the same headers, animate command and preamble. Only the
  contents of the two buffers change. Over a sequence of calls the counter grows by the
  number of transmitted frames as long as that stays within an \<open>int\<close>, and is that sum
  wrapped around in general.
\<close>

theorem render_frame_state:
  "screen_rows (fst (renderer_render_frame r enc)) = screen_rows r \<and>
   screen_cols (fst (renderer_render_frame r enc)) = screen_cols r \<and>
   kitty_id (fst (renderer_render_frame r enc)) = kitty_id r \<and>
   encoded_buffer_size (fst (renderer_render_frame r enc)) = encoded_buffer_size r \<and>
   protocol_buffer_size (fst (renderer_render_frame r enc)) = protocol_buffer_size r \<and>
   frame_number (fst (renderer_render_frame r enc)) =
     (if snd (snd (renderer_render_frame r enc)) = Written
      then (frame_number r + 1 + 2147483648) mod 4294967296 - 2147483648
      else frame_number r) \<and>
   (snd (snd (renderer_render_frame r enc)) = Written \<and>
      - 2147483648 \<le> frame_number r \<and> frame_number r < 2147483647 \<longrightarrow>
      frame_number (fst (renderer_render_frame r enc)) = frame_number r + 1) \<and>
   (snd (snd (renderer_render_frame r enc)) = Written \<and> frame_number r = 2147483647 \<longrightarrow>
      frame_number (fst (renderer_render_frame r enc)) = - 2147483648) \<and>
   (snd (snd (renderer_render_frame r enc)) \<noteq> Written \<longrightarrow>
      frame_number (fst (renderer_render_frame r enc)) = frame_number r \<and>
      preamble (fst (renderer_render_frame r enc)) = preamble r \<and>
      animate_command (fst (renderer_render_frame r enc)) = animate_command r \<and>
      (\<forall>first mc. chunk_header (fst (renderer_render_frame r enc)) first mc = chunk_header r first mc)) \<and>
   length (snd (render_frames r encs)) = length encs \<and>
   (- 2147483648 \<le> frame_number r \<and> frame_number r + int (length encs) \<le> 2147483647 \<longrightarrow>
      frame_number (fst (render_frames r encs)) =
        frame_number r + int (length (filter (\<lambda>(out, oc). oc = Written) (snd (render_frames r encs))))) \<and>
   (- 2147483648 \<le> frame_number r \<and> frame_number r \<le> 2147483647 \<longrightarrow>
      frame_number (fst (render_frames r encs)) =
        (frame_number r + int (length (filter (\<lambda>(out, oc). oc = Written) (snd (render_frames r encs)))) +
           2147483648) mod 4294967296 - 2147483648)"
proof -
  note a = render_frame_always[of r enc]
  have fnum: "frame_number (fst (renderer_render_frame r enc)) =
     (if snd (snd (renderer_render_frame r enc)) = Written
      then (frame_number r + 1 + 2147483648) mod 4294967296 - 2147483648
      else frame_number r)"
    using a by (simp add: c_int_def)
  have inc: "frame_number (fst (renderer_render_frame r enc)) = frame_number r + 1"
    if "snd (snd (renderer_render_frame r enc)) = Written \<and>
      - 2147483648 \<le> frame_number r \<and> frame_number r < 2147483647"
    using a that by (simp add: c_int_id)
  have top: "frame_number (fst (renderer_render_frame r enc)) = - 2147483648"
    if "snd (snd (renderer_render_frame r enc)) = Written \<and> frame_number r = 2147483647"
    using a that by (simp add: c_int_def)
  have same: "frame_number (fst (renderer_render_frame r enc)) = frame_number r \<and>
      preamble (fst (renderer_render_frame r enc)) = preamble r \<and>
      animate_command (fst (renderer_render_frame r enc)) = animate_command r \<and>
      (\<forall>first mc. chunk_header (fst (renderer_render_frame r enc)) first mc = chunk_header r first mc)"
    if d: "snd (snd (renderer_render_frame r enc)) \<noteq> Written"
  proof -
    have f: "frame_number (fst (renderer_render_frame r enc)) = frame_number r" using a d by simp
    have "chunk_header (fst (renderer_render_frame r enc)) first mc = chunk_header r first mc" for first mc
      by (rule chunk_header_cong) (use a f in simp_all)
    then show ?thesis using a f by (simp add: preamble_def animate_command_def)
  qed
  have len: "length (snd (render_frames r encs)) = length encs"
    by (induction encs arbitrary: r) (simp_all add: render_frames_Cons)
  have wc: "length (filter (\<lambda>(out, oc). oc = Written) (snd (render_frames r encs))) =
      written_count (snd (render_frames r encs))"
    by (simp add: written_count_def)
  have seq: "frame_number (fst (render_frames r encs)) =
        frame_number r + int (length (filter (\<lambda>(out, oc). oc = Written) (snd (render_frames r encs))))"
    if "- 2147483648 \<le> frame_number r \<and> frame_number r + int (length encs) \<le> 2147483647"
    unfolding wc using that by (intro render_frames_counter) simp_all
  have seqw: "frame_number (fst (render_frames r encs)) =
        (frame_number r + int (length (filter (\<lambda>(out, oc). oc = Written) (snd (render_frames r encs)))) +
           2147483648) mod 4294967296 - 2147483648"
    if "- 2147483648 \<le> frame_number r \<and> frame_number r \<le> 2147483647"
    unfolding wc using render_frames_counter_wrap[of r encs] that
    by (simp add: int_range_def c_int_def)
  show ?thesis using a fnum inc top same len seq seqw by blast
qed

theorem render_frame_state_witness:
  "snd (snd (renderer_render_frame (demo_renderer 10 0) ''QUJD'')) \<noteq> Written \<and>
   frame_number (fst (renderer_render_frame (demo_renderer 10 0) ''QUJD'')) = 0 \<and>
   kitty_id (fst (renderer_render_frame (demo_renderer 10 0) ''QUJD'')) = 7 \<and>
   preamble (fst (renderer_render_frame (demo_renderer 10 0) ''QUJD'')) = cursor_home \<and>
   snd (snd (renderer_render_frame (demo_renderer 200 0) ''QUJD'')) = Written \<and>
   frame_number (fst (renderer_render_frame (demo_renderer 200 0) ''QUJD'')) = 1 \<and>
   snd (snd (renderer_render_frame (demo_renderer 200 2147483647) ''QUJD'')) = Written \<and>
   frame_number (fst (renderer_render_frame (demo_renderer 200 2147483647) ''QUJD'')) = - 2147483648 \<and>
   frame_number (fst (render_frames (demo_renderer 200 0) [''QUJD'', ''QUJD''])) = 2 \<and>
   frame_number (fst (render_frames (demo_renderer 200 2147483647) [''QUJD'', ''QUJD''])) = - 2147483647"
proof -
  have d: "snd (snd (renderer_render_frame (demo_renderer 10 0) ''QUJD'')) = Skipped Header_overflow"
    by code_simp
  have w: "snd (snd (renderer_render_frame (demo_renderer 200 0) ''QUJD'')) = Written"
    by code_simp
  have wm: "snd (snd (renderer_render_frame (demo_renderer 200 2147483647) ''QUJD'')) = Written"
    by code_simp
  have c0: "length (filter (\<lambda>(out, oc). oc = Written)
      (snd (render_frames (demo_renderer 200 0) [''QUJD'', ''QUJD'']))) = 2"
    by code_simp
  have cm: "length (filter (\<lambda>(out, oc). oc = Written)
      (snd (render_frames (demo_renderer 200 2147483647) [''QUJD'', ''QUJD'']))) = 2"
    by code_simp
  have f: "frame_number (demo_renderer cap n) = n" "kitty_id (demo_renderer cap n) = 7" for cap n
    by (simp_all add: demo_renderer_def)
  note t = render_frame_state[of "demo_renderer 10 0" "''QUJD''" "[]"]
  note u = render_frame_state[of "demo_renderer 200 0" "''QUJD''" "[''QUJD'', ''QUJD'']"]
  note v = render_frame_state[of "demo_renderer 200 2147483647" "''QUJD''" "[''QUJD'', ''QUJD'']"]
  have t1: "frame_number (fst (renderer_render_frame (demo_renderer 10 0) ''QUJD'')) = 0"
    "kitty_id (fst (renderer_render_frame (demo_renderer 10 0) ''QUJD'')) = 7"
    "preamble (fst (renderer_render_frame (demo_renderer 10 0) ''QUJD'')) = cursor_home"
    using t by (simp_all add: d f preamble_def)
  have u1: "frame_number (fst (renderer_render_frame (demo_renderer 200 0) ''QUJD'')) = 1"
    using u by (simp add: w f)
  have v1: "frame_number (fst (renderer_render_frame (demo_renderer 200 2147483647) ''QUJD'')) = - 2147483648"
    using v by (simp add: wm f)
  have u2: "frame_number (fst (render_frames (demo_renderer 200 0) [''QUJD'', ''QUJD''])) = 2"
    using u[THEN conjunct2, THEN conjunct2, THEN conjunct2, THEN conjunct2, THEN conjunct2,
        THEN conjunct2, THEN conjunct2, THEN conjunct2, THEN conjunct2, THEN conjunct2, THEN conjunct1]
    by (simp add: c0 f)
  have v2: "frame_number (fst (render_frames (demo_renderer 200 2147483647) [''QUJD'', ''QUJD''])) =
      - 2147483647"
    using v[THEN conjunct2, THEN conjunct2, THEN conjunct2, THEN conjunct2, THEN conjunct2,
        THEN conjunct2, THEN conjunct2, THEN conjunct2, THEN conjunct2, THEN conjunct2, THEN conjunct2]
    by (simp add: cm f)
  show ?thesis using d w wm t1 u1 v1 u2 v2 by simp
qed

text \<open>The claim as stated, that a dropped frame leaves every field unchanged, fails for
  the buffers: the payload is encoded into \<open>encoded_buffer\<close> and the header is formatted
  into the protocol buffer before the capacity check that drops the frame.\<close>

theorem render_frame_state_counterexample:
  "snd (snd (renderer_render_frame (demo_renderer 10 0) ''QUJD'')) = Skipped Header_overflow \<and>
   encoded_buffer (demo_renderer 10 0) = ''xxxxxxxxxxxxxxxx'' \<and>
   encoded_buffer (fst (renderer_render_frame (demo_renderer 10 0) ''QUJD'')) =
     ''QUJD'' @ [CHR 0x00] @ ''xxxxxxxxxxx'' \<and>
   protocol_buffer (demo_renderer 10 0) = ''xxxxxxxxxx'' \<and>
   protocol_buffer (fst (renderer_render_frame (demo_renderer 10 0) ''QUJD'')) =
     [CHR 0x1B] @ ''_Ga=T,i='' @ [CHR 0x00]"
  by code_simp


subsection \<open>Transmitted frames\<close>

lemma m_flag_digit_closed: "fmt_d (m_flag True) = ''1''" "fmt_d (m_flag False) = ''0''"
  by code_simp+

lemma m_flag_digit: "fmt_d (m_flag mc) = (if mc then ''1'' else ''0'')"
  by (cases mc) (simp_all only: m_flag_digit_closed if_True if_False)

lemma chunk_header_flag:
  "\<exists>h. chunk_header r first mc = ESC # ''_G'' @ h @ ''m='' @ (if mc then ''1'' else ''0'') @ '';''"
proof -
  have c1: "\<exists>h. create_header r mc = ESC # ''_G'' @ h @ ''m='' @ (if mc then ''1'' else ''0'') @ '';''"
    by (rule exI[of _ "''a=T,i='' @ fmt_d (kitty_id r) @ '',f=24,s='' @ fmt_d WIDTH @ '',v='' @
         fmt_d HEIGHT @ '',q=2,c='' @ fmt_d (screen_cols r) @ '',r='' @ fmt_d (screen_rows r) @ '',''"])
       (simp add: create_header_def m_flag_digit)
  have c2: "\<exists>h. update_header r mc = ESC # ''_G'' @ h @ ''m='' @ (if mc then ''1'' else ''0'') @ '';''"
    by (rule exI[of _ "''a=f,r=1,i='' @ fmt_d (kitty_id r) @ '',f=24,x=0,y=0,s='' @ fmt_d WIDTH @
         '',v='' @ fmt_d HEIGHT @ '',''"])
       (simp add: update_header_def m_flag_digit)
  have c3: "\<exists>h. create_continuation mc = ESC # ''_G'' @ h @ ''m='' @ (if mc then ''1'' else ''0'') @ '';''"
    by (rule exI[of _ "[]"]) (simp add: create_continuation_def m_flag_digit)
  have c4: "\<exists>h. update_continuation mc = ESC # ''_G'' @ h @ ''m='' @ (if mc then ''1'' else ''0'') @ '';''"
    by (rule exI[of _ "''a=f,r=1,''"]) (simp add: update_continuation_def m_flag_digit)
  show ?thesis
  proof (cases first)
    case True
    then show ?thesis using c1 c2 by (cases "frame_number r = 0") (simp_all add: chunk_header_def)
  next
    case False
    then show ?thesis using c3 c4 by (cases "frame_number r = 0") (simp_all add: chunk_header_def)
  qed
qed

text \<open>
  Claim C6. The output of a transmitted frame is the preamble, then the chunks of the
  payload, each between its header and the two-byte terminator (ESC, backslash), then
  the animate command or the newline. The chunks are consecutive pieces of the payload (their concatenation
  is the payload), each of 4096 bytes but for a shorter last one when the length is not a
  multiple of 4096; every header ends with \<open>m=1;\<close> when a chunk follows and with \<open>m=0;\<close>
  on the last chunk (\<open>wrap_chunks\<close> passes \<open>cs \<noteq> []\<close> as the flag). The chunk list is a
  function of the payload alone, and the chunk lengths of its length alone: the renderer,
  and so the frame index, does not enter it.
\<close>

theorem render_frame_chunks:
  assumes ok: "renderer_ok r" and fits: "length enc < encoded_buffer_size r"
    and written: "snd (snd (renderer_render_frame r enc)) = Written"
  shows "fst (snd (renderer_render_frame r enc)) =
           preamble r @ wrap_chunks r True (split_chunks chunk_size enc) @
           (if frame_number r > 0 then animate_command r else []) @
           (if frame_number r = 0 then newline else []) \<and>
         concat (split_chunks chunk_size enc) = enc \<and>
         map length (split_chunks chunk_size enc) =
           replicate (length enc div 4096) 4096 @
           (if length enc mod 4096 = 0 then [] else [length enc mod 4096]) \<and>
         (length (enc' :: char list) = length enc \<longrightarrow>
            map length (split_chunks chunk_size enc') = map length (split_chunks chunk_size enc)) \<and>
         (\<forall>first mc. \<exists>h. chunk_header r first mc =
            ESC # ''_G'' @ h @ ''m='' @ (if mc then ''1'' else ''0'') @ '';'') \<and>
         trailer = [ESC, CHR 0x5C]"
proof -
  have out: "fst (snd (renderer_render_frame r enc)) =
           preamble r @ wrap_chunks r True (split_chunks chunk_size enc) @
           (if frame_number r > 0 then animate_command r else []) @
           (if frame_number r = 0 then newline else [])"
    using render_frame_ok(3)[OF ok fits written] by (simp add: frame_bytes_def)
  have cc: "concat (split_chunks chunk_size enc) = enc"
    by (simp add: concat_split_chunks chunk_size_def)
  have len: "map length (split_chunks chunk_size xs) =
           replicate (length xs div 4096) 4096 @
           (if length xs mod 4096 = 0 then [] else [length xs mod 4096])" for xs :: "char list"
    using split_chunks_lengths[of chunk_size xs] by (simp add: chunk_size_def)
  have same: "map length (split_chunks chunk_size enc') = map length (split_chunks chunk_size enc)"
    if "length enc' = length enc"
    using that len[of enc'] len[of enc] by simp
  show ?thesis
    using out cc len[of enc] same chunk_header_flag[of r] by (simp add: trailer_def)
qed

theorem render_frame_chunks_witness:
  "renderer_ok doom_renderer \<and> length doom_payload < encoded_buffer_size doom_renderer \<and>
   snd (snd (renderer_render_frame doom_renderer doom_payload)) = Written \<and>
   fst (snd (renderer_render_frame doom_renderer doom_payload)) =
     cursor_home @ wrap_chunks doom_renderer True (split_chunks chunk_size doom_payload) @ newline \<and>
   concat (split_chunks chunk_size doom_payload) = doom_payload \<and>
   map length (split_chunks chunk_size doom_payload) = replicate 62 4096 @ [2048]"
proof -
  have fits: "length doom_payload < encoded_buffer_size doom_renderer"
    by (simp add: doom_payload_length doom_renderer_fields)
  note t = render_frame_chunks[OF doom_renderer_ok fits doom_frame_written, of doom_payload]
  have d: "length doom_payload div 4096 = 62" "length doom_payload mod 4096 = 2048"
    by (simp_all add: doom_payload_length)
  have o: "fst (snd (renderer_render_frame doom_renderer doom_payload)) =
     cursor_home @ wrap_chunks doom_renderer True (split_chunks chunk_size doom_payload) @ newline"
    using t by (simp add: preamble_def doom_renderer_fields)
  have l: "map length (split_chunks chunk_size doom_payload) = replicate 62 4096 @ [2048]"
    using t unfolding d by simp
  show ?thesis using doom_renderer_ok fits doom_frame_written o l t by simp
qed

lemma fmt_d_size: "fmt_d WIDTH = ''320''" "fmt_d HEIGHT = ''200''"
  by code_simp+

lemma digits_value_dec_digits: "digits_value (dec_digits n) = n"
proof (induction n rule: dec_digits.induct)
  case (1 n)
  show ?case
  proof (cases "n < 10")
    case True
    then show ?thesis by (subst dec_digits.simps) (simp add: digits_value_def)
  next
    case False
    then have ih: "digits_value (dec_digits (n div 10)) = n div 10" by (rule 1)
    have "n mod 10 < 10" by simp
    then have "(48 + n mod 10) mod 256 = 48 + n mod 10" by simp
    then show ?thesis using False ih
      by (subst dec_digits.simps) (simp add: digits_value_def)
  qed
qed

lemma digits_value_fmt_d: "0 \<le> i \<Longrightarrow> digits_value (fmt_d i) = nat i"
  by (simp add: fmt_d_def digits_value_dec_digits)

text \<open>
  Claim C7. A transmitted frame with frame index 0 is the cursor-home sequence, then the
  create-image command \<open>ESC _G a=T\<close> with the image identifier, the pixel format and size
  (\<open>f=24,s=320,v=200\<close>), the quality hint \<open>q=2\<close> and the placement columns and rows, the
  first chunk and its terminator, the remaining chunks, and at the end the newline
  \<open>CR LF\<close>. A transmitted frame with a frame index of 1 or more starts with the
  frame-update command \<open>ESC _G a=f,r=1\<close> for the same image identifier and ends with the
  animate command \<open>ESC _G a=a,c=1\<close> for that identifier. The identifier is written in
  decimal digits (they read back as the identifier) and no call changes it. The output of
  a call ends with the newline exactly when the call transmits frame 0. Over a sequence
  of calls on a renderer that starts at frame 0, short enough for the frame counter not to
  overflow (at most \<open>2^31 - 1\<close> calls), the newline is written exactly once if a frame is
  transmitted at all, and never otherwise. The payload of a frame is never empty.
\<close>

theorem render_frame_commands:
  assumes ok: "renderer_ok r"
    and fits: "\<forall>e\<in>set (enc # encs). e \<noteq> [] \<and> length e < encoded_buffer_size r"
  shows "(frame_number r = 0 \<and> snd (snd (renderer_render_frame r enc)) = Written \<longrightarrow>
            fst (snd (renderer_render_frame r enc)) =
              CHR 0x1B # ''[H'' @
              CHR 0x1B # ''_Ga=T,i='' @ fmt_d (kitty_id r) @ '',f=24,s=320,v=200,q=2,c='' @
                fmt_d (screen_cols r) @ '',r='' @ fmt_d (screen_rows r) @ '',m='' @
                (if chunk_size < length enc then ''1'' else ''0'') @ '';'' @
              take chunk_size enc @ [CHR 0x1B, CHR 0x5C] @
              wrap_chunks r False (split_chunks chunk_size (drop chunk_size enc)) @
              [CHR 0x0D, CHR 0x0A]) \<and>
         (0 < frame_number r \<and> snd (snd (renderer_render_frame r enc)) = Written \<longrightarrow>
            fst (snd (renderer_render_frame r enc)) =
              CHR 0x1B # ''_Ga=f,r=1,i='' @ fmt_d (kitty_id r) @ '',f=24,x=0,y=0,s=320,v=200,m='' @
                (if chunk_size < length enc then ''1'' else ''0'') @ '';'' @
              take chunk_size enc @ [CHR 0x1B, CHR 0x5C] @
              wrap_chunks r False (split_chunks chunk_size (drop chunk_size enc)) @
              CHR 0x1B # ''_Ga=a,c=1,i='' @ fmt_d (kitty_id r) @ '';'' @ [CHR 0x1B, CHR 0x5C]) \<and>
         (0 \<le> kitty_id r \<longrightarrow> digits_value (fmt_d (kitty_id r)) = nat (kitty_id r)) \<and>
         kitty_id (fst (renderer_render_frame r enc)) = kitty_id r \<and>
         (ends_with [CHR 0x0D, CHR 0x0A] (fst (snd (renderer_render_frame r enc))) \<longleftrightarrow>
            frame_number r = 0 \<and> snd (snd (renderer_render_frame r enc)) = Written) \<and>
         kitty_id (fst (render_frames r (enc # encs))) = kitty_id r \<and>
         length (snd (render_frames r (enc # encs))) = length (enc # encs) \<and>
         (frame_number r = 0 \<and> int (length (enc # encs)) \<le> 2147483647 \<longrightarrow>
            length (filter (\<lambda>(out, oc). ends_with [CHR 0x0D, CHR 0x0A] out)
                      (snd (render_frames r (enc # encs)))) =
              (if filter (\<lambda>(out, oc). oc = Written) (snd (render_frames r (enc # encs))) = []
               then 0 else 1))"
proof -
  have ne: "enc \<noteq> []" and f1: "length enc < encoded_buffer_size r"
    and fall: "\<forall>e\<in>set (enc # encs). length e < encoded_buffer_size r"
    using fits by simp_all
  note w = wrap_first_chunk[OF ne, of r]
  have first: "fst (snd (renderer_render_frame r enc)) =
              CHR 0x1B # ''[H'' @
              CHR 0x1B # ''_Ga=T,i='' @ fmt_d (kitty_id r) @ '',f=24,s=320,v=200,q=2,c='' @
                fmt_d (screen_cols r) @ '',r='' @ fmt_d (screen_rows r) @ '',m='' @
                (if chunk_size < length enc then ''1'' else ''0'') @ '';'' @
              take chunk_size enc @ [CHR 0x1B, CHR 0x5C] @
              wrap_chunks r False (split_chunks chunk_size (drop chunk_size enc)) @
              [CHR 0x0D, CHR 0x0A]"
    if "frame_number r = 0 \<and> snd (snd (renderer_render_frame r enc)) = Written"
    using render_frame_ok(3)[OF ok f1] that
    by (simp add: frame_bytes_def w preamble_def chunk_header_def create_header_def cursor_home_def
        ESC_def trailer_def newline_def fmt_d_size m_flag_digit)
  have later: "fst (snd (renderer_render_frame r enc)) =
              CHR 0x1B # ''_Ga=f,r=1,i='' @ fmt_d (kitty_id r) @ '',f=24,x=0,y=0,s=320,v=200,m='' @
                (if chunk_size < length enc then ''1'' else ''0'') @ '';'' @
              take chunk_size enc @ [CHR 0x1B, CHR 0x5C] @
              wrap_chunks r False (split_chunks chunk_size (drop chunk_size enc)) @
              CHR 0x1B # ''_Ga=a,c=1,i='' @ fmt_d (kitty_id r) @ '';'' @ [CHR 0x1B, CHR 0x5C]"
    if "0 < frame_number r \<and> snd (snd (renderer_render_frame r enc)) = Written"
    using render_frame_ok(3)[OF ok f1] that
    by (simp add: frame_bytes_def w preamble_def chunk_header_def update_header_def
        animate_command_def ESC_def trailer_def fmt_d_size m_flag_digit)
  have dig: "digits_value (fmt_d (kitty_id r)) = nat (kitty_id r)" if "0 \<le> kitty_id r"
    using that by (rule digits_value_fmt_d)
  have id1: "kitty_id (fst (renderer_render_frame r enc)) = kitty_id r"
    using render_frame_always[of r enc] by simp
  have nl: "ends_with [CHR 0x0D, CHR 0x0A] (fst (snd (renderer_render_frame r enc))) \<longleftrightarrow>
            frame_number r = 0 \<and> snd (snd (renderer_render_frame r enc)) = Written"
    using render_frame_newline_iff[OF ok f1] by (simp add: newline_def)
  have id: "kitty_id (fst (render_frames r (enc # encs))) = kitty_id r"
    using render_frames_fields[of r "enc # encs"] by simp
  have len: "length (snd (render_frames r es)) = length es" for es
    by (induction es arbitrary: r) (simp_all add: render_frames_Cons)
  have once: "length (filter (\<lambda>(out, oc). ends_with [CHR 0x0D, CHR 0x0A] out)
                      (snd (render_frames r (enc # encs)))) =
              (if filter (\<lambda>(out, oc). oc = Written) (snd (render_frames r (enc # encs))) = []
               then 0 else 1)"
    if "frame_number r = 0 \<and> int (length (enc # encs)) \<le> 2147483647"
    using newline_count_first[OF ok _ _ fall] that
    by (simp add: newline_count_def written_count_def newline_def)
  show ?thesis using first later dig id1 nl id len[of "enc # encs"] once by blast
qed

theorem render_frame_commands_witness:
  "snd (snd (renderer_render_frame (demo_renderer 200 0) ''QUJD'')) = Written \<and>
   fst (snd (renderer_render_frame (demo_renderer 200 0) ''QUJD'')) =
     CHR 0x1B # ''[H'' @ CHR 0x1B # ''_Ga=T,i=7,f=24,s=320,v=200,q=2,c=80,r=24,m=0;QUJD'' @
     [CHR 0x1B, CHR 0x5C, CHR 0x0D, CHR 0x0A] \<and>
   snd (snd (renderer_render_frame (demo_renderer 200 3) ''QUJD'')) = Written \<and>
   fst (snd (renderer_render_frame (demo_renderer 200 3) ''QUJD'')) =
     CHR 0x1B # ''_Ga=f,r=1,i=7,f=24,x=0,y=0,s=320,v=200,m=0;QUJD'' @
     [CHR 0x1B, CHR 0x5C] @ CHR 0x1B # ''_Ga=a,c=1,i=7;'' @ [CHR 0x1B, CHR 0x5C] \<and>
   \<not> ends_with [CHR 0x0D, CHR 0x0A] (fst (snd (renderer_render_frame (demo_renderer 200 3) ''QUJD''))) \<and>
   length (filter (\<lambda>(out, oc). oc = Written)
     (snd (render_frames (demo_renderer 200 0) [''QUJD'', ''QUJD'']))) = 2 \<and>
   length (filter (\<lambda>(out, oc). ends_with [CHR 0x0D, CHR 0x0A] out)
     (snd (render_frames (demo_renderer 200 0) [''QUJD'', ''QUJD'']))) = 1"
proof -
  have ok: "renderer_ok (demo_renderer 200 n)" for n
    by (simp add: demo_renderer_def renderer_ok_def)
  have fits1: "\<forall>e\<in>set [''QUJD'']. e \<noteq> [] \<and> length e < encoded_buffer_size (demo_renderer 200 n)"
    and fits2: "\<forall>e\<in>set [''QUJD'', ''QUJD'']. e \<noteq> [] \<and> length e < encoded_buffer_size (demo_renderer 200 n)"
    for n
    by (simp_all add: demo_renderer_def)
  have fn: "frame_number (demo_renderer 200 n) = n" "kitty_id (demo_renderer 200 n) = 7"
    "screen_cols (demo_renderer 200 n) = 80" "screen_rows (demo_renderer 200 n) = 24" for n
    by (simp_all add: demo_renderer_def)
  have digits: "fmt_d 7 = ''7''" "fmt_d 80 = ''80''" "fmt_d 24 = ''24''"
    by code_simp+
  have w0: "snd (snd (renderer_render_frame (demo_renderer 200 0) ''QUJD'')) = Written"
    by code_simp
  have w3: "snd (snd (renderer_render_frame (demo_renderer 200 3) ''QUJD'')) = Written"
    by code_simp
  have wc: "length (filter (\<lambda>(out, oc). oc = Written)
     (snd (render_frames (demo_renderer 200 0) [''QUJD'', ''QUJD'']))) = 2"
    by code_simp
  note a = render_frame_commands[OF ok fits2, of 0]
  have a': "fst (snd (renderer_render_frame (demo_renderer 200 0) ''QUJD'')) =
     CHR 0x1B # ''[H'' @ CHR 0x1B # ''_Ga=T,i=7,f=24,s=320,v=200,q=2,c=80,r=24,m=0;QUJD'' @
     [CHR 0x1B, CHR 0x5C, CHR 0x0D, CHR 0x0A]"
    using a[THEN conjunct1] w0 by (simp add: fn chunk_size_def digits)
  note b = render_frame_commands[OF ok fits1, of 3]
  have b': "fst (snd (renderer_render_frame (demo_renderer 200 3) ''QUJD'')) =
     CHR 0x1B # ''_Ga=f,r=1,i=7,f=24,x=0,y=0,s=320,v=200,m=0;QUJD'' @
     [CHR 0x1B, CHR 0x5C] @ CHR 0x1B # ''_Ga=a,c=1,i=7;'' @ [CHR 0x1B, CHR 0x5C]"
    using b[THEN conjunct2, THEN conjunct1] w3 by (simp add: fn chunk_size_def digits)
  have b'': "\<not> ends_with [CHR 0x0D, CHR 0x0A] (fst (snd (renderer_render_frame (demo_renderer 200 3) ''QUJD'')))"
    using b[THEN conjunct2, THEN conjunct2, THEN conjunct2, THEN conjunct2, THEN conjunct1]
    by (simp add: fn)
  have wne: "filter (\<lambda>(out, oc). oc = Written)
     (snd (render_frames (demo_renderer 200 0) [''QUJD'', ''QUJD''])) \<noteq> []"
    using wc by auto
  have c': "length (filter (\<lambda>(out, oc). ends_with [CHR 0x0D, CHR 0x0A] out)
     (snd (render_frames (demo_renderer 200 0) [''QUJD'', ''QUJD'']))) = 1"
    using a[THEN conjunct2, THEN conjunct2, THEN conjunct2, THEN conjunct2, THEN conjunct2,
        THEN conjunct2, THEN conjunct2] wne
    by (simp add: fn)
  show ?thesis using w0 a' w3 b' b'' wc c' by (intro conjI)
qed

end
